theory Spec2Isabelle
  imports Main "HOL-Library.Word"
begin

section \<open>Data model\<close>

text \<open>
  The repository holds two variants of one LRU cache with a cache-wide TTL:
  package \<^verbatim>\<open>lru\<close> (src/lru.go) and package \<^verbatim>\<open>cache\<close> (src/lru_cache.go).
  Both keep a \<^verbatim>\<open>container/list\<close> of elements, least recently used first, and a
  Go map from keys to pointers into that list.

  Go's \<^verbatim>\<open>int64\<close> is a 64-bit word read as two's complement: \<open>+\<close> and \<open>-\<close> wrap,
  comparisons are the signed ones (\<open>\<le>s\<close>, \<open><s\<close>).
  \<^verbatim>\<open>NewLRUCache\<close> takes two \<^verbatim>\<open>int\<close> and converts them with \<^verbatim>\<open>int64(...)\<close>; \<^verbatim>\<open>int\<close> being 64
  bits wide (32 bits on some platforms, where the conversion extends the sign), the
  model takes the two \<^verbatim>\<open>int64\<close> values.

  A \<^verbatim>\<open>*list.Element\<close> is an address (\<open>elem\<close>). The list is the sequence of the
  addresses linked into it, front first; the store \<open>heap\<close> gives the \<^verbatim>\<open>*entry\<close> held by
  the \<^verbatim>\<open>Value\<close> field of each element, so that a write through the pointer found in
  the map is seen from the list, as in the source. \<open>nextElem\<close> is the allocator: the
  address that the next \<^verbatim>\<open>PushBack\<close> returns.

  The record has the field names of src/lru.go; src/lru_cache.go calls
  \<open>reqCount\<close> and \<open>hitCount\<close> \<^verbatim>\<open>totalReqTimes\<close> and \<^verbatim>\<open>totalHitTimes\<close>. The mutex is not
  modelled: every operation holds it from its first to its last statement, and the
  functions below are the critical sections.
\<close>

type_synonym int64 = "64 word"

type_synonym elem = nat

record 'v entry =
  key :: string
  val :: 'v
  createAt :: int64

record 'v LRUCache =
  maxCount :: int64
  ttl :: int64
  lruList :: "elem list"
  lruMap :: "string \<rightharpoonup> elem"
  heap :: "elem \<rightharpoonup> 'v entry"
  nextElem :: elem
  reqCount :: int64
  hitCount :: int64
  keyCount :: int64

datatype error = ErrLruNotFoundKey | ErrKeyNotFound

definition NewLRUCache :: "int64 \<Rightarrow> int64 \<Rightarrow> 'v LRUCache" where
  "NewLRUCache maxCount' ttl' =
     \<lparr>maxCount = maxCount', ttl = ttl', lruList = [], lruMap = Map.empty,
      heap = Map.empty, nextElem = 0, reqCount = 0, hitCount = 0, keyCount = 0\<rparr>"

subsection \<open>The operations of container/list that the cache uses\<close>

text \<open>
  \<^verbatim>\<open>Remove\<close> and \<^verbatim>\<open>MoveToBack\<close> do nothing for an element that is not linked into the
  list (\<^verbatim>\<open>e.list != l\<close>).
\<close>

definition Remove :: "elem \<Rightarrow> elem list \<Rightarrow> elem list" where
  "Remove e l = remove1 e l"

definition MoveToBack :: "elem \<Rightarrow> elem list \<Rightarrow> elem list" where
  "MoveToBack e l = (if e \<in> set l then remove1 e l @ [e] else l)"

definition PushBack :: "elem \<Rightarrow> elem list \<Rightarrow> elem list" where
  "PushBack e l = l @ [e]"

section \<open>Package lru (src/lru.go)\<close>

text \<open>
  Every function that evaluates a type assertion \<^verbatim>\<open>ele.Value.(*entry)\<close> returns an
  option: \<open>None\<close> is the run-time panic of an assertion on an element that holds no
  entry. The argument \<open>now\<close> is the value that \<^verbatim>\<open>time.Now().Unix()\<close> returns at that
  point of the call.

  Three blocks of statements are the same text in both packages and are named here:
  \<^item> \<open>touch\<close>, the branch \<^verbatim>\<open>//exist\<close> of \<^verbatim>\<open>Update\<close>:
    \<^verbatim>\<open>item.value = value; item.createAt = time.Now().Unix(); lruList.MoveToBack(ele)\<close>;
  \<^item> \<open>push_new\<close>, the branch \<^verbatim>\<open>//new\<close> of \<^verbatim>\<open>Update\<close>, up to \<^verbatim>\<open>keyCount++\<close>:
    \<^verbatim>\<open>item := &entry{key, value, time.Now().Unix()}; lruMap[key] = lruList.PushBack(item); keyCount++\<close>;
  \<^item> \<open>evict\<close>, the body of the loop of \<^verbatim>\<open>checkWithLocked\<close> (and the branch \<^verbatim>\<open>//expire\<close> of
    \<^verbatim>\<open>Get\<close> in src/lru.go):
    \<^verbatim>\<open>lruList.Remove(front); delete(lruMap, e.key); keyCount--\<close>.
\<close>

definition touch :: "elem \<Rightarrow> 'v entry \<Rightarrow> 'v \<Rightarrow> int64 \<Rightarrow> 'v LRUCache \<Rightarrow> 'v LRUCache" where
  "touch ele item v now c =
     c\<lparr>heap := (heap c)(ele \<mapsto> item\<lparr>val := v, createAt := now\<rparr>),
       lruList := MoveToBack ele (lruList c)\<rparr>"

definition push_new :: "string \<Rightarrow> 'v \<Rightarrow> int64 \<Rightarrow> 'v LRUCache \<Rightarrow> 'v LRUCache" where
  "push_new k v now c =
     c\<lparr>heap := (heap c)(nextElem c \<mapsto> \<lparr>key = k, val = v, createAt = now\<rparr>),
       lruList := PushBack (nextElem c) (lruList c),
       lruMap := (lruMap c)(k \<mapsto> nextElem c),
       nextElem := Suc (nextElem c),
       keyCount := keyCount c + 1\<rparr>"

definition evict :: "elem \<Rightarrow> 'v entry \<Rightarrow> 'v LRUCache \<Rightarrow> 'v LRUCache" where
  "evict front e c =
     c\<lparr>lruList := Remove front (lruList c),
       lruMap := (lruMap c)(key e := None),
       keyCount := keyCount c - 1\<rparr>"

function lru_checkWithLocked :: "int64 \<Rightarrow> 'v LRUCache \<Rightarrow> 'v LRUCache option" where
  "lru_checkWithLocked now c =
     (case lruList c of
        [] \<Rightarrow> Some c
      | front # rest \<Rightarrow>
          (case heap c front of
             None \<Rightarrow> None
           | Some e \<Rightarrow>
               if keyCount c \<le>s maxCount c \<and> now <s createAt e + ttl c then Some c
               else lru_checkWithLocked now (evict front e c)))"
  by pat_completeness auto
termination
  by (relation "measure (\<lambda>(now, c). length (lruList c))")
     (auto simp: evict_def Remove_def)

declare lru_checkWithLocked.simps [simp del]

text \<open>
  \<^verbatim>\<open>Update\<close> and \<^verbatim>\<open>Get\<close> of src/lru.go run \<^verbatim>\<open>checkWithLocked\<close> in a deferred call, after
  the body; \<open>now\<close> is the clock reading of the body, \<open>now'\<close> the later one of the
  deferred pass. \<^verbatim>\<open>Update\<close> always returns the error \<^verbatim>\<open>nil\<close>, so the model returns the
  state alone. The result of \<^verbatim>\<open>Get\<close> is fixed by its \<^verbatim>\<open>return\<close> statement, before the
  deferred pass runs.
\<close>

definition lru_Update ::
  "'v LRUCache \<Rightarrow> string \<Rightarrow> 'v \<Rightarrow> int64 \<Rightarrow> int64 \<Rightarrow> 'v LRUCache option" where
  "lru_Update c k v now now' =
     (case lruMap c k of
        Some ele \<Rightarrow>
          (case heap c ele of
             None \<Rightarrow> None
           | Some item \<Rightarrow> lru_checkWithLocked now' (touch ele item v now c))
      | None \<Rightarrow> lru_checkWithLocked now' (push_new k v now c))"

definition returning :: "'r \<Rightarrow> 's option \<Rightarrow> ('s \<times> 'r) option" where
  "returning r s = map_option (\<lambda>c. (c, r)) s"

definition lru_Get ::
  "'v LRUCache \<Rightarrow> string \<Rightarrow> int64 \<Rightarrow> int64 \<Rightarrow> ('v LRUCache \<times> (error + 'v)) option" where
  "lru_Get c0 k now now' =
     (let c = c0\<lparr>reqCount := reqCount c0 + 1\<rparr> in
      case lruMap c k of
        Some ele \<Rightarrow>
          (case heap c ele of
             None \<Rightarrow> None
           | Some item \<Rightarrow>
               if now <s createAt item + ttl c then
                 returning (Inr (val item))
                   (lru_checkWithLocked now'
                      (c\<lparr>hitCount := hitCount c + 1,
                         lruList := MoveToBack ele (lruList c)\<rparr>))
               else
                 returning (Inl ErrLruNotFoundKey)
                   (lru_checkWithLocked now' (evict ele item c)))
      | None \<Rightarrow> returning (Inl ErrLruNotFoundKey) (lru_checkWithLocked now' c))"

section \<open>Package cache (src/lru_cache.go)\<close>

function cache_checkWithLocked :: "'v LRUCache \<Rightarrow> 'v LRUCache option" where
  "cache_checkWithLocked c =
     (if maxCount c <s keyCount c \<and> lruList c \<noteq> [] then
        (case heap c (hd (lruList c)) of
           None \<Rightarrow> None
         | Some item \<Rightarrow> cache_checkWithLocked (evict (hd (lruList c)) item c))
      else Some c)"
  by pat_completeness auto
termination
  by (relation "measure (\<lambda>c. length (lruList c))")
     (auto simp: evict_def Remove_def neq_Nil_conv)

declare cache_checkWithLocked.simps [simp del]

definition cache_Update ::
  "'v LRUCache \<Rightarrow> string \<Rightarrow> 'v \<Rightarrow> int64 \<Rightarrow> 'v LRUCache option" where
  "cache_Update c k v now =
     (case lruMap c k of
        Some ele \<Rightarrow>
          (case heap c ele of
             None \<Rightarrow> None
           | Some item \<Rightarrow> Some (touch ele item v now c))
      | None \<Rightarrow> cache_checkWithLocked (push_new k v now c))"

definition cache_Get ::
  "'v LRUCache \<Rightarrow> string \<Rightarrow> int64 \<Rightarrow> ('v LRUCache \<times> (error + 'v)) option" where
  "cache_Get c0 k now =
     (let c = c0\<lparr>reqCount := reqCount c0 + 1\<rparr> in
      case lruMap c k of
        Some ele \<Rightarrow>
          (case heap c ele of
             None \<Rightarrow> None
           | Some item \<Rightarrow>
               if now <s createAt item + ttl c then
                 Some (c\<lparr>hitCount := hitCount c + 1,
                         lruList := MoveToBack ele (lruList c)\<rparr>, Inr (val item))
               else
                 Some (c\<lparr>lruList := Remove ele (lruList c),
                         lruMap := (lruMap c)(k := None),
                         keyCount := keyCount c - 1\<rparr>, Inl ErrKeyNotFound))
      | None \<Rightarrow> Some (c, Inl ErrKeyNotFound))"

text \<open>
  \<^verbatim>\<open>Delete\<close> evaluates no type assertion, so it cannot panic; it returns the error, or
  \<open>None\<close> for \<^verbatim>\<open>nil\<close>.
\<close>

definition cache_Delete :: "'v LRUCache \<Rightarrow> string \<Rightarrow> 'v LRUCache \<times> error option" where
  "cache_Delete c0 k =
     (let c = c0\<lparr>reqCount := reqCount c0 + 1\<rparr> in
      case lruMap c k of
        Some ele \<Rightarrow>
          (c\<lparr>hitCount := hitCount c + 1,
             lruList := Remove ele (lruList c),
             lruMap := (lruMap c)(k := None),
             keyCount := keyCount c - 1\<rparr>, None)
      | None \<Rightarrow> (c, Some ErrKeyNotFound))"


definition lru_GetKeysCount :: "'v LRUCache \<Rightarrow> int64" where
  "lru_GetKeysCount c = keyCount c"

definition cache_GetKeyCount :: "'v LRUCache \<Rightarrow> int64" where
  "cache_GetKeyCount c = keyCount c"

section \<open>Sequences of calls\<close>

text \<open>
  A call carries its arguments and the clock readings it makes. A sequence of calls
  runs from left to right and stops at the first panic.
\<close>

datatype 'v lru_call = LUpdate string 'v int64 int64 | LGet string int64 int64

datatype 'v cache_call = CUpdate string 'v int64 | CGet string int64 | CDelete string

fun lru_apply :: "'v LRUCache \<Rightarrow> 'v lru_call \<Rightarrow> 'v LRUCache option" where
  "lru_apply c (LUpdate k v now now') = lru_Update c k v now now'"
| "lru_apply c (LGet k now now') = map_option fst (lru_Get c k now now')"

fun cache_apply :: "'v LRUCache \<Rightarrow> 'v cache_call \<Rightarrow> 'v LRUCache option" where
  "cache_apply c (CUpdate k v now) = cache_Update c k v now"
| "cache_apply c (CGet k now) = map_option fst (cache_Get c k now)"
| "cache_apply c (CDelete k) = Some (fst (cache_Delete c k))"

fun lru_run :: "'v LRUCache \<Rightarrow> 'v lru_call list \<Rightarrow> 'v LRUCache option" where
  "lru_run c [] = Some c"
| "lru_run c (x # xs) = (case lru_apply c x of None \<Rightarrow> None | Some c' \<Rightarrow> lru_run c' xs)"

fun cache_run :: "'v LRUCache \<Rightarrow> 'v cache_call list \<Rightarrow> 'v LRUCache option" where
  "cache_run c [] = Some c"
| "cache_run c (x # xs) = (case cache_apply c x of None \<Rightarrow> None | Some c' \<Rightarrow> cache_run c' xs)"



fun lru_inserts :: "string \<Rightarrow> 'v lru_call \<Rightarrow> bool" where
  "lru_inserts k (LUpdate k' v now now') = (k' = k)"
| "lru_inserts k (LGet k' now now') = False"

fun cache_inserts :: "string \<Rightarrow> 'v cache_call \<Rightarrow> bool" where
  "cache_inserts k (CUpdate k' v now) = (k' = k)"
| "cache_inserts k (CGet k' now) = False"
| "cache_inserts k (CDelete k') = False"

section \<open>The invariant of the two structures\<close>

text \<open>
  \<open>wf\<close> is the consistency of the list, the index and the count: the list holds each
  element once; every element of the list holds an entry, and the index maps the key
  of that entry to this element; every handle in the index is an element of the list
  whose entry has the key it is filed under; the count is the length of the list (as
  an \<^verbatim>\<open>int64\<close>); and the allocator has not yet handed out an address above its mark.
\<close>

definition wf :: "'v LRUCache \<Rightarrow> bool" where
  "wf c \<longleftrightarrow>
     distinct (lruList c) \<and>
     (\<forall>e \<in> set (lruList c). e < nextElem c \<and>
        (\<exists>it. heap c e = Some it \<and> lruMap c (key it) = Some e)) \<and>
     (\<forall>k e. lruMap c k = Some e \<longrightarrow>
        e \<in> set (lruList c) \<and> (\<exists>it. heap c e = Some it \<and> key it = k)) \<and>
     keyCount c = of_nat (length (lruList c))"

text \<open>The keys of the entries in the list, front first.\<close>

definition list_keys :: "'v LRUCache \<Rightarrow> string option list" where
  "list_keys c = map (\<lambda>e. map_option key (heap c e)) (lruList c)"

text \<open>The creation stamps of the entries in the list.\<close>

definition stamps :: "'v LRUCache \<Rightarrow> int64 set" where
  "stamps c = {createAt it |e it. e \<in> set (lruList c) \<and> heap c e = Some it}"

section \<open>What an eviction pass does\<close>

text \<open>
  \<open>evicted n c\<close> is the state \<open>c\<close> with its \<open>n\<close> front elements removed from the list,
  their handles removed from the index, and the count decremented \<open>n\<close> times.
  \<open>lru_stops now c i\<close> is the test on which the loop of src/lru.go breaks, evaluated
  when \<open>i\<close> elements have been removed and element \<open>i\<close> of the list is at the front;
  \<open>cache_stops c i\<close> is the same for the loop condition of src/lru_cache.go.
\<close>

definition evicted :: "nat \<Rightarrow> 'v LRUCache \<Rightarrow> 'v LRUCache" where
  "evicted n c =
     c\<lparr>lruList := drop n (lruList c),
       lruMap := (\<lambda>k. if lruMap c k \<in> Some ` set (take n (lruList c)) then None
                       else lruMap c k),
       keyCount := keyCount c - of_nat n\<rparr>"

definition lru_stops :: "int64 \<Rightarrow> 'v LRUCache \<Rightarrow> nat \<Rightarrow> bool" where
  "lru_stops now c i =
     (case heap c (lruList c ! i) of
        None \<Rightarrow> False
      | Some e \<Rightarrow> keyCount c - of_nat i \<le>s maxCount c \<and> now <s createAt e + ttl c)"

definition cache_stops :: "'v LRUCache \<Rightarrow> nat \<Rightarrow> bool" where
  "cache_stops c i = (keyCount c - of_nat i \<le>s maxCount c)"

section \<open>Postconditions used in the proofs\<close>

text \<open>What every pass guarantees, whatever the number of entries it removes.\<close>

definition pass_post :: "'v LRUCache \<Rightarrow> 'v LRUCache \<Rightarrow> bool" where
  "pass_post c c' \<longleftrightarrow>
     wf c' \<and> maxCount c' = maxCount c \<and> ttl c' = ttl c \<and> reqCount c' = reqCount c \<and>
     hitCount c' = hitCount c \<and> stamps c' \<subseteq> stamps c \<and>
     dom (lruMap c') \<subseteq> dom (lruMap c) \<and>
     (lruList c' = [] \<or> keyCount c' \<le>s maxCount c')"

text \<open>What a call guarantees: \<open>K\<close> are the keys it may insert, \<open>T\<close> the stamps it may write.\<close>

definition step_post :: "string set \<Rightarrow> int64 set \<Rightarrow> 'v LRUCache \<Rightarrow> 'v LRUCache \<Rightarrow> bool" where
  "step_post K T c c' \<longleftrightarrow>
     wf c' \<and> maxCount c' = maxCount c \<and> ttl c' = ttl c \<and>
     stamps c' \<subseteq> stamps c \<union> T \<and> dom (lruMap c') \<subseteq> dom (lruMap c) \<union> K"

text \<open>The keys that a sequence of calls inserts, and the stamps that it writes.\<close>

fun lru_key_of :: "'v lru_call \<Rightarrow> string set" where
  "lru_key_of (LUpdate k v now now') = {k}"
| "lru_key_of (LGet k now now') = {}"

fun lru_stamp_of :: "'v lru_call \<Rightarrow> int64 set" where
  "lru_stamp_of (LUpdate k v now now') = {now}"
| "lru_stamp_of (LGet k now now') = {}"

fun cache_key_of :: "'v cache_call \<Rightarrow> string set" where
  "cache_key_of (CUpdate k v now) = {k}"
| "cache_key_of (CGet k now) = {}"
| "cache_key_of (CDelete k) = {}"

fun cache_stamp_of :: "'v cache_call \<Rightarrow> int64 set" where
  "cache_stamp_of (CUpdate k v now) = {now}"
| "cache_stamp_of (CGet k now) = {}"
| "cache_stamp_of (CDelete k) = {}"

section \<open>Example states\<close>

text \<open>
  The states after \<^verbatim>\<open>Update("a", 1)\<close>, and after \<^verbatim>\<open>Update("a", 1); Update("b", 2)\<close>, at clock
  reading 0 on a cache made by \<^verbatim>\<open>NewLRUCache(5, 10)\<close>; the same in both packages.
\<close>

definition cache_one :: "nat LRUCache" where
  "cache_one =
     \<lparr>maxCount = 5, ttl = 10, lruList = [0], lruMap = [''a'' \<mapsto> 0],
      heap = [0 \<mapsto> \<lparr>key = ''a'', val = 1, createAt = 0\<rparr>], nextElem = 1,
      reqCount = 0, hitCount = 0, keyCount = 1\<rparr>"

definition cache_two :: "nat LRUCache" where
  "cache_two =
     \<lparr>maxCount = 5, ttl = 10, lruList = [0, 1], lruMap = [''a'' \<mapsto> 0, ''b'' \<mapsto> 1],
      heap = [0 \<mapsto> \<lparr>key = ''a'', val = 1, createAt = 0\<rparr>,
              1 \<mapsto> \<lparr>key = ''b'', val = 2, createAt = 0\<rparr>], nextElem = 2,
      reqCount = 0, hitCount = 0, keyCount = 2\<rparr>"

section \<open>The clock\<close>


section \<open>The entry of a key\<close>

text \<open>
  The entry that the index reaches for a key; \<open>keeps k c c'\<close>: going from \<open>c\<close> to \<open>c'\<close>
  either removes the key \<open>k\<close> from the index or leaves its entry as it was.
\<close>

definition entry_of :: "'v LRUCache \<Rightarrow> string \<Rightarrow> 'v entry option" where
  "entry_of c k = (case lruMap c k of None \<Rightarrow> None | Some e \<Rightarrow> heap c e)"

definition keeps :: "string \<Rightarrow> 'v LRUCache \<Rightarrow> 'v LRUCache \<Rightarrow> bool" where
  "keeps k c c' \<longleftrightarrow> entry_of c' k = None \<or> entry_of c' k = entry_of c k"

fun lru_touches :: "string \<Rightarrow> 'v lru_call \<Rightarrow> bool" where
  "lru_touches k (LUpdate k' v now now') = (k' = k)"
| "lru_touches k (LGet k' now now') = (k' = k)"

fun cache_touches :: "string \<Rightarrow> 'v cache_call \<Rightarrow> bool" where
  "cache_touches k (CUpdate k' v now) = (k' = k)"
| "cache_touches k (CGet k' now) = (k' = k)"
| "cache_touches k (CDelete k') = (k' = k)"

section \<open>Preservation of the invariant\<close>

lemma wf_New: "wf (NewLRUCache m t)"
  by (simp add: wf_def NewLRUCache_def)

lemma wf_reqCount [simp]: "wf (c\<lparr>reqCount := r\<rparr>) = wf c"
  by (simp add: wf_def)

lemma wf_hitCount [simp]: "wf (c\<lparr>hitCount := r\<rparr>) = wf c"
  by (simp add: wf_def)

lemma wf_elem:
  assumes "wf c" "e \<in> set (lruList c)"
  obtains it where "heap c e = Some it" "lruMap c (key it) = Some e" "e < nextElem c"
  using assms unfolding wf_def by blast

lemma wf_index:
  assumes "wf c" "lruMap c k = Some e"
  obtains it where "heap c e = Some it" "key it = k" "e \<in> set (lruList c)"
  using assms unfolding wf_def by blast

lemma word_of_nat_pred: "n \<noteq> 0 \<Longrightarrow> (word_of_nat n :: int64) - 1 = word_of_nat (n - 1)"
  by (cases n) simp_all

lemma wf_evict:
  assumes "wf c" "e \<in> set (lruList c)" "heap c e = Some it"
  shows "wf (evict e it c)"
proof -
  have k: "lruMap c (key it) = Some e"
    using assms by (auto elim: wf_elem)
  have d: "distinct (lruList c)" using assms(1) by (simp add: wf_def)
  have A: "\<forall>x \<in> set (remove1 e (lruList c)). x < nextElem c \<and>
        (\<exists>ix. heap c x = Some ix \<and> ((lruMap c)(key it := None)) (key ix) = Some x)"
  proof
    fix x assume x: "x \<in> set (remove1 e (lruList c))"
    then have xin: "x \<in> set (lruList c)" and ne: "x \<noteq> e"
      using d by auto
    from wf_elem[OF assms(1) xin] obtain ix
      where ix: "heap c x = Some ix" "lruMap c (key ix) = Some x" "x < nextElem c" by blast
    with k ne have "key ix \<noteq> key it" by auto
    with ix show "x < nextElem c \<and>
        (\<exists>ix. heap c x = Some ix \<and> ((lruMap c)(key it := None)) (key ix) = Some x)" by auto
  qed
  have B: "\<forall>k' x. ((lruMap c)(key it := None)) k' = Some x \<longrightarrow>
        x \<in> set (remove1 e (lruList c)) \<and> (\<exists>ix. heap c x = Some ix \<and> key ix = k')"
  proof (intro allI impI)
    fix k' x assume "((lruMap c)(key it := None)) k' = Some x"
    then have a: "k' \<noteq> key it" "lruMap c k' = Some x" by (auto split: if_splits)
    from wf_index[OF assms(1) a(2)] obtain ix
      where ix: "heap c x = Some ix" "key ix = k'" "x \<in> set (lruList c)" by blast
    with a assms(3) have "x \<noteq> e" by auto
    with ix d show "x \<in> set (remove1 e (lruList c)) \<and> (\<exists>ix. heap c x = Some ix \<and> key ix = k')"
      by auto
  qed
  have "length (lruList c) \<noteq> 0" using assms(2) by auto
  then have C: "keyCount c - 1 = word_of_nat (length (remove1 e (lruList c)))"
    using assms(1,2) by (simp add: wf_def length_remove1 word_of_nat_pred)
  show ?thesis
    unfolding wf_def evict_def Remove_def using d A B C by simp
qed


lemma set_MoveToBack [simp]: "set (MoveToBack e l) = set l"
proof (cases "e \<in> set l")
  case True
  have "x \<in> set (remove1 e l) \<or> x = e \<longleftrightarrow> x \<in> set l" for x
    using True by (cases "x = e") (simp_all add: in_set_remove1)
  then show ?thesis using True by (auto simp: MoveToBack_def)
next
  case False
  then show ?thesis by (simp add: MoveToBack_def)
qed

lemma distinct_MoveToBack [simp]: "distinct l \<Longrightarrow> distinct (MoveToBack e l)"
  by (simp add: MoveToBack_def)

lemma length_MoveToBack [simp]: "length (MoveToBack e l) = length l"
  by (auto simp: MoveToBack_def length_remove1 in_set_conv_nth
      simp flip: length_greater_0_conv)

lemma wf_move:
  assumes "wf c"
  shows "wf (c\<lparr>lruList := MoveToBack e (lruList c)\<rparr>)"
  using assms unfolding wf_def by simp

lemma wf_touch:
  assumes "wf c" "lruMap c k = Some ele" "heap c ele = Some item"
  shows "wf (touch ele item v now c)"
proof -
  have A: "\<forall>x \<in> set (lruList c). x < nextElem c \<and>
        (\<exists>ix. ((heap c)(ele \<mapsto> item\<lparr>val := v, createAt := now\<rparr>)) x = Some ix \<and>
              lruMap c (key ix) = Some x)"
  proof
    fix x assume xin: "x \<in> set (lruList c)"
    from wf_elem[OF assms(1) xin] obtain ix
      where ix: "heap c x = Some ix" "lruMap c (key ix) = Some x" "x < nextElem c" by blast
    show "x < nextElem c \<and>
        (\<exists>ix. ((heap c)(ele \<mapsto> item\<lparr>val := v, createAt := now\<rparr>)) x = Some ix \<and>
              lruMap c (key ix) = Some x)"
      using ix assms(3) by (cases "x = ele") auto
  qed
  have B: "\<forall>k' x. lruMap c k' = Some x \<longrightarrow> x \<in> set (lruList c) \<and>
        (\<exists>ix. ((heap c)(ele \<mapsto> item\<lparr>val := v, createAt := now\<rparr>)) x = Some ix \<and> key ix = k')"
  proof (intro allI impI)
    fix k' x assume a: "lruMap c k' = Some x"
    from wf_index[OF assms(1) a] obtain ix
      where ix: "heap c x = Some ix" "key ix = k'" "x \<in> set (lruList c)" by blast
    show "x \<in> set (lruList c) \<and>
        (\<exists>ix. ((heap c)(ele \<mapsto> item\<lparr>val := v, createAt := now\<rparr>)) x = Some ix \<and> key ix = k')"
      using ix assms(3) by (cases "x = ele") auto
  qed
  show ?thesis
    unfolding wf_def touch_def using assms(1) A B by (simp add: wf_def)
qed

lemma wf_insert:
  assumes "wf c" "lruMap c k = None"
  shows "wf (push_new k v now c)"
proof -
  let ?n = "nextElem c"
  let ?h = "(heap c)(?n \<mapsto> \<lparr>key = k, val = v, createAt = now\<rparr>)"
  let ?m = "(lruMap c)(k \<mapsto> ?n)"
  have fresh: "?n \<notin> set (lruList c)"
    using assms(1) by (auto elim: wf_elem)
  have A: "\<forall>x \<in> set (lruList c @ [?n]). x < Suc ?n \<and>
        (\<exists>ix. ?h x = Some ix \<and> ?m (key ix) = Some x)"
  proof
    fix x assume "x \<in> set (lruList c @ [?n])"
    then consider "x = ?n" | "x \<in> set (lruList c)" by auto
    then show "x < Suc ?n \<and> (\<exists>ix. ?h x = Some ix \<and> ?m (key ix) = Some x)"
    proof cases
      case 1 then show ?thesis by simp
    next
      case 2
      from wf_elem[OF assms(1) 2] obtain ix
        where ix: "heap c x = Some ix" "lruMap c (key ix) = Some x" "x < nextElem c" by blast
      then have "key ix \<noteq> k" using assms(2) by auto
      with ix show ?thesis by auto
    qed
  qed
  have B: "\<forall>k' x. ?m k' = Some x \<longrightarrow> x \<in> set (lruList c @ [?n]) \<and>
        (\<exists>ix. ?h x = Some ix \<and> key ix = k')"
  proof (intro allI impI)
    fix k' x assume a: "?m k' = Some x"
    show "x \<in> set (lruList c @ [?n]) \<and> (\<exists>ix. ?h x = Some ix \<and> key ix = k')"
    proof (cases "k' = k")
      case True with a show ?thesis by simp
    next
      case False
      with a have a': "lruMap c k' = Some x" by simp
      from wf_index[OF assms(1) a'] obtain ix
        where ix: "heap c x = Some ix" "key ix = k'" "x \<in> set (lruList c)" by blast
      with fresh have "x \<noteq> ?n" by auto
      with ix show ?thesis by auto
    qed
  qed
  show ?thesis
    unfolding wf_def push_new_def PushBack_def using assms(1) fresh A B by (simp add: wf_def)
qed


section \<open>The eviction pass, characterised\<close>

lemma evicted_0 [simp]: "evicted 0 c = c"
  by (simp add: evicted_def)

lemma evicted_Suc:
  assumes "wf c" "lruList c = f # rest" "heap c f = Some e"
  shows "evicted (Suc n) c = evicted n (evict f e c)"
proof -
  have fin: "f \<in> set (lruList c)" using assms(2) by simp
  have k: "lruMap c (key e) = Some f"
    using assms(1,3) fin by (auto elim: wf_elem)
  have inj: "lruMap c k' = Some f \<Longrightarrow> k' = key e" for k'
    using assms(1,3) by (auto elim: wf_index)
  have "(if lruMap c k' \<in> Some ` set (take (Suc n) (f # rest)) then None else lruMap c k') =
        (if ((lruMap c)(key e := None)) k' \<in> Some ` set (take n rest) then None
         else ((lruMap c)(key e := None)) k')" for k'
  proof (cases "k' = key e")
    case True
    then show ?thesis by (simp add: k)
  next
    case False
    with inj[of k'] have "lruMap c k' \<noteq> Some f" by auto
    then show ?thesis using False by auto
  qed
  then have "(\<lambda>k'. if lruMap c k' \<in> Some ` set (take (Suc n) (f # rest)) then None
                    else lruMap c k') =
        (\<lambda>k'. if ((lruMap c)(key e := None)) k' \<in> Some ` set (take n rest) then None
              else ((lruMap c)(key e := None)) k')"
    by (rule ext)
  then show ?thesis
    using assms(2) by (simp add: evicted_def evict_def Remove_def diff_diff_eq cong: if_cong)
qed

lemma wf_evicted: "wf c \<Longrightarrow> n \<le> length (lruList c) \<Longrightarrow> wf (evicted n c)"
proof (induction n arbitrary: c)
  case 0
  then show ?case by simp
next
  case (Suc n)
  then obtain f rest where l: "lruList c = f # rest" by (cases "lruList c") auto
  then have fin: "f \<in> set (lruList c)" by simp
  from wf_elem[OF Suc.prems(1) fin] obtain e where e: "heap c f = Some e" by blast
  have w: "wf (evict f e c)" by (rule wf_evict[OF Suc.prems(1) fin e])
  have "n \<le> length (lruList (evict f e c))"
    using Suc.prems(2) l by (simp add: evict_def Remove_def)
  from Suc.IH[OF w this] show ?case
    by (simp add: evicted_Suc[OF Suc.prems(1) l e])
qed

lemma lru_stops_evict:
  assumes "lruList c = f # rest"
  shows "lru_stops now (evict f e c) i = lru_stops now c (Suc i)"
  using assms by (simp add: lru_stops_def evict_def Remove_def diff_diff_eq split: option.split)

lemma cache_stops_evict:
  "cache_stops (evict f e c) i = cache_stops c (Suc i)"
  by (simp add: cache_stops_def evict_def diff_diff_eq)

lemma lru_pass:
  "wf c \<Longrightarrow>
   \<exists>n\<le>length (lruList c).
      lru_checkWithLocked now c = Some (evicted n c) \<and>
      (\<forall>i<n. \<not> lru_stops now c i) \<and>
      (n < length (lruList c) \<longrightarrow> lru_stops now c n)"
proof (induction now c rule: lru_checkWithLocked.induct)
  case (1 now c)
  show ?case
  proof (cases "lruList c")
    case Nil
    then show ?thesis by (simp add: lru_checkWithLocked.simps)
  next
    case (Cons f rest)
    then have fin: "f \<in> set (lruList c)" by simp
    from wf_elem[OF "1.prems" fin] obtain e where e: "heap c f = Some e" by blast
    show ?thesis
    proof (cases "keyCount c \<le>s maxCount c \<and> now <s createAt e + ttl c")
      case True
      then have "lru_checkWithLocked now c = Some (evicted 0 c)" "lru_stops now c 0"
        using Cons e by (simp_all add: lru_checkWithLocked.simps[of now c] lru_stops_def)
      then show ?thesis by (intro exI[of _ 0]) simp
    next
      case False
      have w: "wf (evict f e c)" by (rule wf_evict[OF "1.prems" fin e])
      from "1.IH"[OF Cons e False w] obtain n
        where n: "n \<le> length (lruList (evict f e c))"
          "lru_checkWithLocked now (evict f e c) = Some (evicted n (evict f e c))"
          "\<forall>i<n. \<not> lru_stops now (evict f e c) i"
          "n < length (lruList (evict f e c)) \<longrightarrow> lru_stops now (evict f e c) n"
        by blast
      have len: "length (lruList (evict f e c)) = length rest"
        using Cons by (simp add: evict_def Remove_def)
      have s0: "\<not> lru_stops now c 0"
        using False Cons e by (simp add: lru_stops_def)
      have a: "lru_checkWithLocked now c = Some (evicted (Suc n) c)"
        by (subst lru_checkWithLocked.simps)
           (simp add: False Cons e n(2) evicted_Suc[OF "1.prems" Cons e])
      have b: "\<forall>i<Suc n. \<not> lru_stops now c i"
      proof (intro allI impI)
        fix i assume "i < Suc n"
        then show "\<not> lru_stops now c i"
          using s0 n(3) by (cases i) (simp_all add: lru_stops_evict[OF Cons])
      qed
      have c: "Suc n < length (lruList c) \<longrightarrow> lru_stops now c (Suc n)"
        using n(4) len Cons by (simp add: lru_stops_evict[OF Cons])
      have "Suc n \<le> length (lruList c)" using n(1) len Cons by simp
      with a b c show ?thesis by blast
    qed
  qed
qed

lemma cache_pass:
  "wf c \<Longrightarrow>
   \<exists>n\<le>length (lruList c).
      cache_checkWithLocked c = Some (evicted n c) \<and>
      (\<forall>i<n. \<not> cache_stops c i) \<and>
      (n < length (lruList c) \<longrightarrow> cache_stops c n)"
proof (induction c rule: cache_checkWithLocked.induct)
  case (1 c)
  show ?case
  proof (cases "maxCount c <s keyCount c \<and> lruList c \<noteq> []")
    case False
    then have "cache_checkWithLocked c = Some (evicted 0 c)"
      by (subst cache_checkWithLocked.simps) (simp only: False if_False evicted_0)
    moreover have "0 < length (lruList c) \<longrightarrow> cache_stops c 0"
      using False by (auto simp: cache_stops_def signed.not_less)
    ultimately show ?thesis by (intro exI[of _ 0]) simp
  next
    case True
    then obtain f rest where Cons: "lruList c = f # rest" by (cases "lruList c") auto
    then have fin: "f \<in> set (lruList c)" by simp
    from wf_elem[OF "1.prems" fin] obtain e where e: "heap c f = Some e" by blast
    have e': "heap c (hd (lruList c)) = Some e" using e Cons by simp
    have ev: "evict (hd (lruList c)) e c = evict f e c" using Cons by simp
    have w: "wf (evict f e c)" by (rule wf_evict[OF "1.prems" fin e])
    note IH = "1.IH"[OF True e', unfolded ev]
    from IH[OF w] obtain n
      where n: "n \<le> length (lruList (evict f e c))"
        "cache_checkWithLocked (evict f e c) = Some (evicted n (evict f e c))"
        "\<forall>i<n. \<not> cache_stops (evict f e c) i"
        "n < length (lruList (evict f e c)) \<longrightarrow> cache_stops (evict f e c) n"
      by blast
    have len: "length (lruList (evict f e c)) = length rest"
      using Cons by (simp add: evict_def Remove_def)
    have s0: "\<not> cache_stops c 0"
      using True by (simp add: cache_stops_def signed.not_le)
    have a: "cache_checkWithLocked c = Some (evicted (Suc n) c)"
      by (subst cache_checkWithLocked.simps)
         (simp add: True Cons e n(2) evicted_Suc[OF "1.prems" Cons e])
    have b: "\<forall>i<Suc n. \<not> cache_stops c i"
    proof (intro allI impI)
      fix i assume "i < Suc n"
      then show "\<not> cache_stops c i"
        using s0 n(3) by (cases i) (simp_all add: cache_stops_evict)
    qed
    have c: "Suc n < length (lruList c) \<longrightarrow> cache_stops c (Suc n)"
      using n(4) len Cons by (simp add: cache_stops_evict)
    have "Suc n \<le> length (lruList c)" using n(1) len Cons by simp
    with a b c show ?thesis by blast
  qed
qed



section \<open>Effects of the operations\<close>

lemma evicted_fields [simp]:
  "maxCount (evicted n c) = maxCount c"
  "ttl (evicted n c) = ttl c"
  "heap (evicted n c) = heap c"
  "nextElem (evicted n c) = nextElem c"
  "reqCount (evicted n c) = reqCount c"
  "hitCount (evicted n c) = hitCount c"
  "lruList (evicted n c) = drop n (lruList c)"
  "keyCount (evicted n c) = keyCount c - of_nat n"
  by (simp_all add: evicted_def)

lemma evicted_lruMap_Some:
  "lruMap (evicted n c) k = Some e \<Longrightarrow> lruMap c k = Some e"
  by (simp add: evicted_def split: if_splits)

lemma evicted_lruMap_None:
  "lruMap c k = None \<Longrightarrow> lruMap (evicted n c) k = None"
  by (simp add: evicted_def)

lemma dom_evicted: "dom (lruMap (evicted n c)) \<subseteq> dom (lruMap c)"
  by (auto dest: evicted_lruMap_Some)

lemma stamps_evicted: "stamps (evicted n c) \<subseteq> stamps c"
  by (auto simp: stamps_def dest: in_set_dropD)

lemma stamps_evict: "stamps (evict e it c) \<subseteq> stamps c"
  by (auto simp: stamps_def evict_def Remove_def dest: set_remove1_subset[THEN subsetD])

lemma stamps_touch: "stamps (touch ele item v now c) \<subseteq> insert now (stamps c)"
  by (auto simp: stamps_def touch_def split: if_splits)

lemma stamps_push_new: "stamps (push_new k v now c) \<subseteq> insert now (stamps c)"
  by (auto simp: stamps_def push_new_def PushBack_def split: if_splits)

lemma stamps_reqCount [simp]: "stamps (c\<lparr>reqCount := r\<rparr>) = stamps c"
  by (simp add: stamps_def)

lemma stamps_hit [simp]:
  "stamps (c\<lparr>hitCount := h, lruList := MoveToBack e (lruList c)\<rparr>) = stamps c"
  by (simp add: stamps_def)

lemma wf_empty_count: "wf c \<Longrightarrow> lruList c = [] \<Longrightarrow> keyCount c = 0"
  by (simp add: wf_def)

lemma wf_empty_index: "wf c \<Longrightarrow> lruList c = [] \<Longrightarrow> lruMap c k = None"
  by (cases "lruMap c k") (auto simp: wf_def)

lemma pass_post_evicted:
  assumes "wf c" "n \<le> length (lruList c)"
    "n < length (lruList c) \<longrightarrow> keyCount c - of_nat n \<le>s maxCount c"
  shows "pass_post c (evicted n c)"
  unfolding pass_post_def
  using wf_evicted[OF assms(1,2)] stamps_evicted[of n c] dom_evicted[of n c] assms(2,3)
  by (cases "n < length (lruList c)") auto

lemma lru_pass_post:
  assumes "wf c"
  shows "\<exists>c'. lru_checkWithLocked now c = Some c' \<and> pass_post c c'"
proof -
  from lru_pass[OF assms, of now] obtain n where n: "n \<le> length (lruList c)"
    "lru_checkWithLocked now c = Some (evicted n c)"
    "n < length (lruList c) \<longrightarrow> lru_stops now c n" by blast
  have "n < length (lruList c) \<longrightarrow> keyCount c - of_nat n \<le>s maxCount c"
    using n(3) by (auto simp: lru_stops_def split: option.splits)
  from pass_post_evicted[OF assms n(1) this] n(2) show ?thesis by blast
qed

lemma cache_pass_post:
  assumes "wf c"
  shows "\<exists>c'. cache_checkWithLocked c = Some c' \<and> pass_post c c'"
proof -
  from cache_pass[OF assms] obtain n where n: "n \<le> length (lruList c)"
    "cache_checkWithLocked c = Some (evicted n c)"
    "n < length (lruList c) \<longrightarrow> cache_stops c n" by blast
  have "n < length (lruList c) \<longrightarrow> keyCount c - of_nat n \<le>s maxCount c"
    using n(3) by (auto simp: cache_stops_def)
  from pass_post_evicted[OF assms n(1) this] n(2) show ?thesis by blast
qed


lemma pass_postD:
  assumes "pass_post c c'"
  shows "wf c'" "maxCount c' = maxCount c" "ttl c' = ttl c" "reqCount c' = reqCount c"
    "hitCount c' = hitCount c" "stamps c' \<subseteq> stamps c" "dom (lruMap c') \<subseteq> dom (lruMap c)"
    "lruList c' = [] \<or> keyCount c' \<le>s maxCount c'"
  using assms by (auto simp: pass_post_def)

lemma touch_fields [simp]:
  "maxCount (touch ele item v now c) = maxCount c"
  "ttl (touch ele item v now c) = ttl c"
  "lruMap (touch ele item v now c) = lruMap c"
  "reqCount (touch ele item v now c) = reqCount c"
  "hitCount (touch ele item v now c) = hitCount c"
  "keyCount (touch ele item v now c) = keyCount c"
  by (simp_all add: touch_def)

lemma push_new_fields [simp]:
  "maxCount (push_new k v now c) = maxCount c"
  "ttl (push_new k v now c) = ttl c"
  "lruMap (push_new k v now c) = (lruMap c)(k \<mapsto> nextElem c)"
  "reqCount (push_new k v now c) = reqCount c"
  "hitCount (push_new k v now c) = hitCount c"
  "keyCount (push_new k v now c) = keyCount c + 1"
  by (simp_all add: push_new_def)

lemma evict_fields [simp]:
  "maxCount (evict e it c) = maxCount c"
  "ttl (evict e it c) = ttl c"
  "lruMap (evict e it c) = (lruMap c)(key it := None)"
  "reqCount (evict e it c) = reqCount c"
  "hitCount (evict e it c) = hitCount c"
  "keyCount (evict e it c) = keyCount c - 1"
  "heap (evict e it c) = heap c"
  "lruList (evict e it c) = remove1 e (lruList c)"
  by (simp_all add: evict_def Remove_def)

lemma lru_Update_post:
  assumes "wf c"
  shows "\<exists>c'. lru_Update c k v now now' = Some c' \<and> step_post {k} {now} c c' \<and>
           reqCount c' = reqCount c \<and> hitCount c' = hitCount c \<and>
           (lruList c' = [] \<or> keyCount c' \<le>s maxCount c')"
proof (cases "lruMap c k")
  case None
  have w: "wf (push_new k v now c)" by (rule wf_insert[OF assms None])
  from lru_pass_post[OF w, of now'] obtain c'
    where c': "lru_checkWithLocked now' (push_new k v now c) = Some c'"
      "pass_post (push_new k v now c) c'" by blast
  have "lru_Update c k v now now' = Some c'"
    using None c'(1) by (simp add: lru_Update_def)
  moreover have "step_post {k} {now} c c'"
    using pass_postD[OF c'(2)] stamps_push_new[of k v now c]
    by (simp add: step_post_def; blast)
  ultimately show ?thesis using pass_postD[OF c'(2)] by auto
next
  case (Some ele)
  from wf_index[OF assms Some] obtain item where item: "heap c ele = Some item" by blast
  have w: "wf (touch ele item v now c)" by (rule wf_touch[OF assms Some item])
  from lru_pass_post[OF w, of now'] obtain c'
    where c': "lru_checkWithLocked now' (touch ele item v now c) = Some c'"
      "pass_post (touch ele item v now c) c'" by blast
  have "lru_Update c k v now now' = Some c'"
    using Some item c'(1) by (simp add: lru_Update_def)
  moreover have "step_post {k} {now} c c'"
    using pass_postD[OF c'(2)] stamps_touch[of ele item v now c]
    by (simp add: step_post_def; blast)
  ultimately show ?thesis using pass_postD[OF c'(2)] by auto
qed

lemma cache_Update_post:
  assumes "wf c"
  shows "\<exists>c'. cache_Update c k v now = Some c' \<and> step_post {k} {now} c c' \<and>
           reqCount c' = reqCount c \<and> hitCount c' = hitCount c \<and>
           (keyCount c \<le>s maxCount c \<longrightarrow> lruList c' = [] \<or> keyCount c' \<le>s maxCount c')"
proof (cases "lruMap c k")
  case None
  have w: "wf (push_new k v now c)" by (rule wf_insert[OF assms None])
  from cache_pass_post[OF w] obtain c'
    where c': "cache_checkWithLocked (push_new k v now c) = Some c'"
      "pass_post (push_new k v now c) c'" by blast
  have "cache_Update c k v now = Some c'"
    using None c'(1) by (simp add: cache_Update_def)
  moreover have "step_post {k} {now} c c'"
    using pass_postD[OF c'(2)] stamps_push_new[of k v now c]
    by (simp add: step_post_def; blast)
  ultimately show ?thesis using pass_postD[OF c'(2)] by auto
next
  case (Some ele)
  from wf_index[OF assms Some] obtain item where item: "heap c ele = Some item" by blast
  have w: "wf (touch ele item v now c)" by (rule wf_touch[OF assms Some item])
  have "cache_Update c k v now = Some (touch ele item v now c)"
    using Some item by (simp add: cache_Update_def)
  moreover have "step_post {k} {now} c (touch ele item v now c)"
    using w stamps_touch[of ele item v now c] by (auto simp: step_post_def)
  ultimately show ?thesis by auto
qed

lemma lru_Get_post:
  assumes "wf c"
  shows "\<exists>c' r. lru_Get c k now now' = Some (c', r) \<and> step_post {} {} c c' \<and>
           reqCount c' = reqCount c + 1"
proof -
  let ?c = "c\<lparr>reqCount := reqCount c + 1\<rparr>"
  have w0: "wf ?c" using assms by simp
  have post: "\<exists>c'. lru_checkWithLocked now' c1 = Some c' \<and> step_post {} {} c c' \<and>
                 reqCount c' = reqCount c + 1"
    if "wf c1" "maxCount c1 = maxCount c" "ttl c1 = ttl c" "stamps c1 \<subseteq> stamps c"
      "dom (lruMap c1) \<subseteq> dom (lruMap c)" "reqCount c1 = reqCount c + 1" for c1
  proof -
    from lru_pass_post[OF that(1), of now'] obtain c'
      where c': "lru_checkWithLocked now' c1 = Some c'" "pass_post c1 c'" by blast
    note P = pass_postD[OF c'(2)]
    have "stamps c' \<subseteq> stamps c" using P(6) that(4) by (rule order_trans)
    moreover have "dom (lruMap c') \<subseteq> dom (lruMap c)" using P(7) that(5) by (rule order_trans)
    ultimately show ?thesis
      using c'(1) P(1-4) that(2,3,6) by (simp add: step_post_def)
  qed
  show ?thesis
  proof (cases "lruMap c k")
    case None
    from post[of ?c] w0 obtain c' where
      "lru_checkWithLocked now' ?c = Some c'" "step_post {} {} c c'" "reqCount c' = reqCount c + 1"
      by auto
    then show ?thesis using None by (simp add: lru_Get_def returning_def)
  next
    case (Some ele)
    from wf_index[OF assms Some] obtain item
      where item: "heap c ele = Some item" "key item = k" "ele \<in> set (lruList c)" by blast
    show ?thesis
    proof (cases "now <s createAt item + ttl c")
      case True
      let ?c1 = "?c\<lparr>hitCount := hitCount ?c + 1, lruList := MoveToBack ele (lruList ?c)\<rparr>"
      have "wf ?c1" using wf_move[OF assms, of ele] by (simp add: wf_def)
      moreover have "stamps ?c1 \<subseteq> stamps c" by (simp add: stamps_def)
      ultimately obtain c' where
        "lru_checkWithLocked now' ?c1 = Some c'" "step_post {} {} c c'" "reqCount c' = reqCount c + 1"
        using post[of ?c1] by auto
      then show ?thesis using Some item True by (simp add: lru_Get_def returning_def)
    next
      case False
      let ?c1 = "evict ele item ?c"
      have "wf ?c1" using wf_evict[OF w0, of ele item] item by simp
      moreover have "stamps ?c1 \<subseteq> stamps c" using stamps_evict[of ele item ?c] by simp
      ultimately obtain c' where
        "lru_checkWithLocked now' ?c1 = Some c'" "step_post {} {} c c'" "reqCount c' = reqCount c + 1"
        using post[of ?c1] by auto
      then show ?thesis using Some item False by (simp add: lru_Get_def returning_def)
    qed
  qed
qed


subsection \<open>The three cases of Get, and Delete\<close>

lemma cache_Get_absent:
  "lruMap c k = None \<Longrightarrow>
   cache_Get c k now = Some (c\<lparr>reqCount := reqCount c + 1\<rparr>, Inl ErrKeyNotFound)"
  by (simp add: cache_Get_def)

lemma cache_Get_fresh:
  "lruMap c k = Some ele \<Longrightarrow> heap c ele = Some item \<Longrightarrow> now <s createAt item + ttl c \<Longrightarrow>
   cache_Get c k now =
     Some (c\<lparr>reqCount := reqCount c + 1, hitCount := hitCount c + 1,
             lruList := MoveToBack ele (lruList c)\<rparr>, Inr (val item))"
  by (simp add: cache_Get_def)

lemma cache_Get_stale:
  "lruMap c k = Some ele \<Longrightarrow> heap c ele = Some item \<Longrightarrow> \<not> now <s createAt item + ttl c \<Longrightarrow>
   cache_Get c k now =
     Some (c\<lparr>reqCount := reqCount c + 1, lruList := Remove ele (lruList c),
             lruMap := (lruMap c)(k := None), keyCount := keyCount c - 1\<rparr>,
           Inl ErrKeyNotFound)"
  by (simp add: cache_Get_def)

lemma lru_Get_absent:
  "lruMap c k = None \<Longrightarrow>
   lru_Get c k now now' =
     returning (Inl ErrLruNotFoundKey)
       (lru_checkWithLocked now' (c\<lparr>reqCount := reqCount c + 1\<rparr>))"
  by (simp add: lru_Get_def)

lemma lru_Get_fresh:
  "lruMap c k = Some ele \<Longrightarrow> heap c ele = Some item \<Longrightarrow> now <s createAt item + ttl c \<Longrightarrow>
   lru_Get c k now now' =
     returning (Inr (val item))
       (lru_checkWithLocked now'
          (c\<lparr>reqCount := reqCount c + 1, hitCount := hitCount c + 1,
             lruList := MoveToBack ele (lruList c)\<rparr>))"
  by (simp add: lru_Get_def)

lemma lru_Get_stale:
  "lruMap c k = Some ele \<Longrightarrow> heap c ele = Some item \<Longrightarrow> \<not> now <s createAt item + ttl c \<Longrightarrow>
   lru_Get c k now now' =
     returning (Inl ErrLruNotFoundKey)
       (lru_checkWithLocked now' (evict ele item (c\<lparr>reqCount := reqCount c + 1\<rparr>)))"
  by (simp add: lru_Get_def)

lemma evict_by_key:
  "key item = k \<Longrightarrow>
   c\<lparr>lruList := Remove ele (lruList c), lruMap := (lruMap c)(k := None),
     keyCount := keyCount c - 1\<rparr> = evict ele item c"
  by (simp add: evict_def)

lemma cache_Get_post:
  assumes "wf c"
  shows "\<exists>c' r. cache_Get c k now = Some (c', r) \<and> step_post {} {} c c' \<and>
           reqCount c' = reqCount c + 1"
proof (cases "lruMap c k")
  case None
  then show ?thesis using assms by (simp add: cache_Get_absent step_post_def)
next
  case (Some ele)
  from wf_index[OF assms Some] obtain item
    where item: "heap c ele = Some item" "key item = k" "ele \<in> set (lruList c)" by blast
  show ?thesis
  proof (cases "now <s createAt item + ttl c")
    case True
    have "wf (c\<lparr>lruList := MoveToBack ele (lruList c)\<rparr>)" by (rule wf_move[OF assms])
    then show ?thesis
      using cache_Get_fresh[OF Some item(1) True]
      by (simp add: step_post_def wf_def stamps_def)
  next
    case False
    let ?c1 = "evict ele item (c\<lparr>reqCount := reqCount c + 1\<rparr>)"
    have w: "wf ?c1" using wf_evict[of "c\<lparr>reqCount := reqCount c + 1\<rparr>" ele item] assms item by simp
    have g: "cache_Get c k now = Some (?c1, Inl ErrKeyNotFound)"
      using cache_Get_stale[OF Some item(1) False] item(2) by (simp add: evict_def)
    have "stamps ?c1 \<subseteq> stamps c"
      using stamps_evict[of ele item "c\<lparr>reqCount := reqCount c + 1\<rparr>"] by simp
    then show ?thesis using w g by (simp add: step_post_def; blast)
  qed
qed

lemma cache_Delete_absent:
  "lruMap c k = None \<Longrightarrow>
   cache_Delete c k = (c\<lparr>reqCount := reqCount c + 1\<rparr>, Some ErrKeyNotFound)"
  by (simp add: cache_Delete_def)

lemma cache_Delete_present:
  "lruMap c k = Some ele \<Longrightarrow>
   cache_Delete c k =
     (c\<lparr>reqCount := reqCount c + 1, hitCount := hitCount c + 1,
        lruList := Remove ele (lruList c), lruMap := (lruMap c)(k := None),
        keyCount := keyCount c - 1\<rparr>, None)"
  by (simp add: cache_Delete_def)

lemma cache_Delete_post:
  assumes "wf c"
  shows "step_post {} {} c (fst (cache_Delete c k))"
proof (cases "lruMap c k")
  case None
  then show ?thesis using assms by (simp add: cache_Delete_absent step_post_def)
next
  case (Some ele)
  from wf_index[OF assms Some] obtain item
    where item: "heap c ele = Some item" "key item = k" "ele \<in> set (lruList c)" by blast
  let ?c0 = "c\<lparr>reqCount := reqCount c + 1, hitCount := hitCount c + 1\<rparr>"
  have w: "wf (evict ele item ?c0)" using wf_evict[of ?c0 ele item] assms item by simp
  have g: "fst (cache_Delete c k) = evict ele item ?c0"
    using cache_Delete_present[OF Some] item(2) by (simp add: evict_def)
  have "stamps (evict ele item ?c0) \<subseteq> stamps c"
    using stamps_evict[of ele item ?c0] by (simp add: stamps_def)
  then show ?thesis using w g by (simp add: step_post_def; blast)
qed

subsection \<open>Runs\<close>

lemma step_post_refl: "wf c \<Longrightarrow> step_post {} {} c c"
  by (simp add: step_post_def)

lemma step_post_trans:
  "step_post K T c c' \<Longrightarrow> step_post K' T' c' c'' \<Longrightarrow> step_post (K \<union> K') (T \<union> T') c c''"
  unfolding step_post_def by (simp; blast)

lemma lru_apply_post:
  assumes "wf c"
  shows "\<exists>c'. lru_apply c x = Some c' \<and> step_post (lru_key_of x) (lru_stamp_of x) c c'"
proof (cases x)
  case (LUpdate k v now now')
  then show ?thesis using lru_Update_post[OF assms, of k v now now'] by auto
next
  case (LGet k now now')
  then show ?thesis using lru_Get_post[OF assms, of k now now'] by auto
qed

lemma cache_apply_post:
  assumes "wf c"
  shows "\<exists>c'. cache_apply c x = Some c' \<and> step_post (cache_key_of x) (cache_stamp_of x) c c'"
proof (cases x)
  case (CUpdate k v now)
  then show ?thesis using cache_Update_post[OF assms, of k v now] by auto
next
  case (CGet k now)
  then show ?thesis using cache_Get_post[OF assms, of k now] by auto
next
  case (CDelete k)
  then show ?thesis using cache_Delete_post[OF assms, of k] by auto
qed

lemma lru_run_post:
  "wf c \<Longrightarrow>
   \<exists>c'. lru_run c xs = Some c' \<and>
        step_post (\<Union>x\<in>set xs. lru_key_of x) (\<Union>x\<in>set xs. lru_stamp_of x) c c'"
proof (induction xs arbitrary: c)
  case Nil
  then show ?case by (simp add: step_post_refl)
next
  case (Cons x xs)
  from lru_apply_post[OF Cons.prems, of x] obtain c1
    where c1: "lru_apply c x = Some c1" "step_post (lru_key_of x) (lru_stamp_of x) c c1"
    by blast
  then have "wf c1" by (simp add: step_post_def)
  from Cons.IH[OF this] obtain c'
    where c': "lru_run c1 xs = Some c'"
      "step_post (\<Union>x\<in>set xs. lru_key_of x) (\<Union>x\<in>set xs. lru_stamp_of x) c1 c'"
    by blast
  from step_post_trans[OF c1(2) c'(2)] c1(1) c'(1) show ?case by simp
qed

lemma cache_run_post:
  "wf c \<Longrightarrow>
   \<exists>c'. cache_run c xs = Some c' \<and>
        step_post (\<Union>x\<in>set xs. cache_key_of x) (\<Union>x\<in>set xs. cache_stamp_of x) c c'"
proof (induction xs arbitrary: c)
  case Nil
  then show ?case by (simp add: step_post_refl)
next
  case (Cons x xs)
  from cache_apply_post[OF Cons.prems, of x] obtain c1
    where c1: "cache_apply c x = Some c1" "step_post (cache_key_of x) (cache_stamp_of x) c c1"
    by blast
  then have "wf c1" by (simp add: step_post_def)
  from Cons.IH[OF this] obtain c'
    where c': "cache_run c1 xs = Some c'"
      "step_post (\<Union>x\<in>set xs. cache_key_of x) (\<Union>x\<in>set xs. cache_stamp_of x) c1 c'"
    by blast
  from step_post_trans[OF c1(2) c'(2)] c1(1) c'(1) show ?case by simp
qed

subsection \<open>The keys of the list and of the index\<close>

lemma wf_keys:
  assumes "wf c"
  shows "distinct (list_keys c)" "set (list_keys c) = Some ` dom (lruMap c)"
    "card (dom (lruMap c)) = length (lruList c)"
proof -
  let ?g = "\<lambda>e. map_option key (heap c e)"
  have inj: "inj_on ?g (set (lruList c))"
  proof (rule inj_onI)
    fix x y assume x: "x \<in> set (lruList c)" and y: "y \<in> set (lruList c)" and eq: "?g x = ?g y"
    from wf_elem[OF assms x] obtain ix where ix: "heap c x = Some ix" "lruMap c (key ix) = Some x" by blast
    from wf_elem[OF assms y] obtain iy where iy: "heap c y = Some iy" "lruMap c (key iy) = Some y" by blast
    from eq ix iy show "x = y" by simp
  qed
  have d: "distinct (lruList c)" using assms by (simp add: wf_def)
  show dk: "distinct (list_keys c)"
    unfolding list_keys_def using d inj by (simp add: distinct_map)
  show s: "set (list_keys c) = Some ` dom (lruMap c)"
  proof (intro set_eqI iffI)
    fix y assume "y \<in> set (list_keys c)"
    then obtain e where e: "e \<in> set (lruList c)" "y = ?g e" by (auto simp: list_keys_def)
    from wf_elem[OF assms e(1)] obtain it where "heap c e = Some it" "lruMap c (key it) = Some e" by blast
    with e(2) show "y \<in> Some ` dom (lruMap c)" by auto
  next
    fix y assume "y \<in> Some ` dom (lruMap c)"
    then obtain k e where k: "y = Some k" "lruMap c k = Some e" by auto
    from wf_index[OF assms k(2)] obtain it where "heap c e = Some it" "key it = k" "e \<in> set (lruList c)" by blast
    then have "?g e = Some k" "e \<in> set (lruList c)" by simp_all
    then show "y \<in> set (list_keys c)" unfolding list_keys_def k(1) by force
  qed
  have "card (dom (lruMap c)) = card (Some ` dom (lruMap c))"
    by (simp add: card_image)
  also have "\<dots> = card (set (list_keys c))" by (simp add: s)
  also have "\<dots> = length (list_keys c)" using dk by (rule distinct_card)
  also have "\<dots> = length (lruList c)" by (simp add: list_keys_def)
  finally show "card (dom (lruMap c)) = length (lruList c)" .
qed


lemma wf_consistent:
  "wf c \<Longrightarrow> wf c \<and> distinct (list_keys c) \<and> set (list_keys c) = Some ` dom (lruMap c) \<and>
        keyCount c = of_nat (card (dom (lruMap c)))"
  using wf_keys[of c] by (simp add: wf_def)

text \<open>The equations with which a concrete run is evaluated.\<close>

lemmas eval_defs =
  NewLRUCache_def cache_Update_def cache_Get_def cache_Delete_def lru_Update_def lru_Get_def
  push_new_def touch_def evict_def PushBack_def Remove_def MoveToBack_def returning_def
  cache_checkWithLocked.simps lru_checkWithLocked.simps
  lru_GetKeysCount_def cache_GetKeyCount_def word_sle_eq word_sless_alt

section \<open>The example states are reachable\<close>

lemma cache_one_run:
  "cache_run (NewLRUCache 5 10) [CUpdate ''a'' 1 0] = Some cache_one"
  "lru_run (NewLRUCache 5 10) [LUpdate ''a'' 1 0 0] = Some cache_one"
  by (simp_all add: eval_defs cache_one_def)

lemma cache_two_run:
  "cache_run (NewLRUCache 5 10) [CUpdate ''a'' 1 0, CUpdate ''b'' 2 0] = Some cache_two"
  "lru_run (NewLRUCache 5 10) [LUpdate ''a'' 1 0 0, LUpdate ''b'' 2 0 0] = Some cache_two"
  by (simp_all add: eval_defs cache_two_def)

lemma wf_cache_one: "wf cache_one"
proof -
  from cache_run_post[OF wf_New, of 5 10 "[CUpdate ''a'' (1::nat) 0]"]
  obtain c' where "cache_run (NewLRUCache 5 10) [CUpdate ''a'' (1::nat) 0] = Some c'" "wf c'"
    unfolding step_post_def by blast
  then show ?thesis unfolding cache_one_run(1) by simp
qed

lemma wf_cache_two: "wf cache_two"
proof -
  from cache_run_post[OF wf_New, of 5 10 "[CUpdate ''a'' (1::nat) 0, CUpdate ''b'' 2 0]"]
  obtain c' where
    "cache_run (NewLRUCache 5 10) [CUpdate ''a'' (1::nat) 0, CUpdate ''b'' 2 0] = Some c'" "wf c'"
    unfolding step_post_def by blast
  then show ?thesis unfolding cache_two_run(1) by simp
qed

section \<open>Capacity\<close>

lemma lru_updates_bound:
  "wf c \<Longrightarrow> 0 \<le>s maxCount c \<Longrightarrow> keyCount c \<le>s maxCount c \<Longrightarrow>
   \<exists>c'. lru_run c (map (\<lambda>(k, v, now, now'). LUpdate k v now now') us) = Some c' \<and>
        maxCount c' = maxCount c \<and> keyCount c' \<le>s maxCount c'"
proof (induction us arbitrary: c)
  case Nil
  then show ?case by simp
next
  case (Cons u us)
  obtain k v now now' where u: "u = (k, v, now, now')" by (cases u) auto
  from lru_Update_post[OF Cons.prems(1), of k v now now'] obtain c1
    where c1: "lru_Update c k v now now' = Some c1" "step_post {k} {now} c c1"
      "lruList c1 = [] \<or> keyCount c1 \<le>s maxCount c1" by blast
  have w: "wf c1" and m: "maxCount c1 = maxCount c" using c1(2) by (simp_all add: step_post_def)
  have b: "keyCount c1 \<le>s maxCount c1"
    using c1(3) wf_empty_count[OF w] Cons.prems(2) m by auto
  from Cons.IH[OF w _ b] Cons.prems(2) m obtain c'
    where "lru_run c1 (map (\<lambda>(k, v, now, now'). LUpdate k v now now') us) = Some c'"
      "maxCount c' = maxCount c1" "keyCount c' \<le>s maxCount c'" by auto
  then show ?case using c1(1) m u by simp
qed

lemma cache_updates_bound:
  "wf c \<Longrightarrow> 0 \<le>s maxCount c \<Longrightarrow> keyCount c \<le>s maxCount c \<Longrightarrow>
   \<exists>c'. cache_run c (map (\<lambda>(k, v, now). CUpdate k v now) us) = Some c' \<and>
        maxCount c' = maxCount c \<and> keyCount c' \<le>s maxCount c'"
proof (induction us arbitrary: c)
  case Nil
  then show ?case by simp
next
  case (Cons u us)
  obtain k v now where u: "u = (k, v, now)" by (cases u) auto
  from cache_Update_post[OF Cons.prems(1), of k v now] obtain c1
    where c1: "cache_Update c k v now = Some c1" "step_post {k} {now} c c1"
      "keyCount c \<le>s maxCount c \<longrightarrow> lruList c1 = [] \<or> keyCount c1 \<le>s maxCount c1" by blast
  have w: "wf c1" and m: "maxCount c1 = maxCount c" using c1(2) by (simp_all add: step_post_def)
  have b: "keyCount c1 \<le>s maxCount c1"
    using c1(3) wf_empty_count[OF w] Cons.prems(2,3) m by auto
  from Cons.IH[OF w _ b] Cons.prems(2) m obtain c'
    where "cache_run c1 (map (\<lambda>(k, v, now). CUpdate k v now) us) = Some c'"
      "maxCount c' = maxCount c1" "keyCount c' \<le>s maxCount c'" by auto
  then show ?case using c1(1) m u by simp
qed

section \<open>Removal of one key\<close>

lemma wf_index_absent_keys:
  assumes "wf c" "lruMap c k = None"
  shows "Some k \<notin> set (list_keys c)"
  using wf_keys(2)[OF assms(1)] assms(2) by auto

lemma remove1_filter_handle:
  assumes "distinct l"
  shows "remove1 ele l = filter (\<lambda>e. Some ele \<noteq> Some e) l"
  using assms by (simp add: distinct_remove1_removeAll removeAll_filter_not_eq)

section \<open>The freshness test in signed 64-bit arithmetic\<close>

lemma sint_add_exact:
  fixes a b :: int64
  assumes "- (2 ^ 63) \<le> sint a + sint b" "sint a + sint b < 2 ^ 63"
  shows "sint (a + b) = sint a + sint b"
  using assms by (simp add: sint_word_ariths signed_take_bit_int_eq_self)

lemma stale_not_fresh:
  fixes now :: int64
  assumes "- (2 ^ 63) \<le> sint stamp + sint life" "sint life \<le> sint now - sint stamp"
  shows "\<not> now <s stamp + life"
proof -
  have "sint now < 2 ^ 63" using sint_lt[of now] by simp
  with assms(2) have "sint stamp + sint life < 2 ^ 63" by linarith
  from sint_add_exact[OF assms(1) this] assms(2) show ?thesis
    by (simp add: word_sless_alt)
qed

lemma fresh_in_range:
  fixes now :: int64
  assumes "sint stamp + sint life < 2 ^ 63" "sint now - sint stamp < sint life"
  shows "now <s stamp + life"
proof -
  have "- (2 ^ 63) \<le> sint now" using sint_ge[of now] by simp
  with assms(2) have "- (2 ^ 63) \<le> sint stamp + sint life" by linarith
  from sint_add_exact[OF this assms(1)] assms(2) show ?thesis
    by (simp add: word_sless_alt)
qed

section \<open>Keys that were never inserted\<close>

lemma lru_stops_reqCount [simp]: "lru_stops now (c\<lparr>reqCount := r\<rparr>) i = lru_stops now c i"
  by (simp add: lru_stops_def split: option.split)

lemma lru_inserts_key_of: "lru_inserts k x \<longleftrightarrow> k \<in> lru_key_of x"
  by (cases x) auto

lemma cache_inserts_key_of: "cache_inserts k x \<longleftrightarrow> k \<in> cache_key_of x"
  by (cases x) auto

lemma lru_never_inserted:
  assumes "\<forall>x\<in>set xs. \<not> lru_inserts k x"
  shows "\<exists>c. lru_run (NewLRUCache m t) xs = Some c \<and> wf c \<and> lruMap c k = None"
proof -
  from lru_run_post[OF wf_New, of m t xs] obtain c
    where c: "lru_run (NewLRUCache m t) xs = Some c"
      "step_post (\<Union>x\<in>set xs. lru_key_of x) (\<Union>x\<in>set xs. lru_stamp_of x) (NewLRUCache m t) c"
    by blast
  have "k \<notin> (\<Union>x\<in>set xs. lru_key_of x)" using assms by (simp add: lru_inserts_key_of)
  moreover have "dom (lruMap c) \<subseteq> (\<Union>x\<in>set xs. lru_key_of x)"
    using c(2) by (simp add: step_post_def NewLRUCache_def)
  ultimately have "lruMap c k = None" by blast
  then show ?thesis using c by (auto simp: step_post_def)
qed

lemma cache_never_inserted:
  assumes "\<forall>x\<in>set xs. \<not> cache_inserts k x"
  shows "\<exists>c. cache_run (NewLRUCache m t) xs = Some c \<and> wf c \<and> lruMap c k = None"
proof -
  from cache_run_post[OF wf_New, of m t xs] obtain c
    where c: "cache_run (NewLRUCache m t) xs = Some c"
      "step_post (\<Union>x\<in>set xs. cache_key_of x) (\<Union>x\<in>set xs. cache_stamp_of x) (NewLRUCache m t) c"
    by blast
  have "k \<notin> (\<Union>x\<in>set xs. cache_key_of x)" using assms by (simp add: cache_inserts_key_of)
  moreover have "dom (lruMap c) \<subseteq> (\<Union>x\<in>set xs. cache_key_of x)"
    using c(2) by (simp add: step_post_def NewLRUCache_def)
  ultimately have "lruMap c k = None" by blast
  then show ?thesis using c by (auto simp: step_post_def)
qed

section \<open>An expired front entry\<close>


section \<open>Stamps and the clock\<close>








section \<open>Calls on other keys leave an entry alone\<close>

lemma keeps_refl: "keeps k c c"
  by (simp add: keeps_def)

lemma keeps_trans: "keeps k c c' \<Longrightarrow> keeps k c' c'' \<Longrightarrow> keeps k c c''"
  by (auto simp: keeps_def)

lemma keeps_counts [simp]:
  "keeps k c (c'\<lparr>reqCount := r\<rparr>) = keeps k c c'"
  "keeps k c (c'\<lparr>hitCount := h\<rparr>) = keeps k c c'"
  "keeps k (c\<lparr>reqCount := r\<rparr>) c' = keeps k c c'"
  "keeps k (c\<lparr>hitCount := h\<rparr>) c' = keeps k c c'"
  "keeps k c (c'\<lparr>lruList := l\<rparr>) = keeps k c c'"
  by (simp_all add: keeps_def entry_of_def split: option.split)

lemma keeps_evicted: "keeps k c (evicted n c)"
  by (simp add: keeps_def entry_of_def evicted_def split: option.split)

lemma keeps_evict: "keeps k c (evict e it c)"
  by (simp add: keeps_def entry_of_def evict_def split: option.split)

lemma keeps_touch:
  assumes "wf c" "lruMap c k' = Some ele" "k' \<noteq> k"
  shows "keeps k c (touch ele item v now c)"
proof (cases "lruMap c k")
  case None
  then show ?thesis by (simp add: keeps_def entry_of_def)
next
  case (Some e)
  from wf_index[OF assms(1) Some] obtain it where it: "heap c e = Some it" "key it = k" by blast
  from wf_index[OF assms(1,2)] obtain it' where it': "heap c ele = Some it'" "key it' = k'" by blast
  from it it' assms(3) have "e \<noteq> ele" by auto
  then show ?thesis using Some by (simp add: keeps_def entry_of_def touch_def)
qed

lemma keeps_push_new:
  assumes "wf c" "k' \<noteq> k"
  shows "keeps k c (push_new k' v now c)"
proof (cases "lruMap c k")
  case None
  then show ?thesis using assms(2) by (simp add: keeps_def entry_of_def)
next
  case (Some e)
  from wf_index[OF assms(1) Some] have "e \<in> set (lruList c)" by blast
  from wf_elem[OF assms(1) this] have "e \<noteq> nextElem c" by auto
  then show ?thesis using Some assms(2) by (simp add: keeps_def entry_of_def push_new_def)
qed

lemma lru_pass_keeps:
  assumes "wf c1" "keeps k c c1"
  shows "\<exists>c'. lru_checkWithLocked now c1 = Some c' \<and> wf c' \<and> keeps k c c' \<and> ttl c' = ttl c1"
proof -
  from lru_pass[OF assms(1), of now] obtain n where n: "n \<le> length (lruList c1)"
    "lru_checkWithLocked now c1 = Some (evicted n c1)" by blast
  from wf_evicted[OF assms(1) n(1)] keeps_trans[OF assms(2) keeps_evicted[of k c1 n]] n(2)
  show ?thesis by simp
qed

lemma cache_pass_keeps:
  assumes "wf c1" "keeps k c c1"
  shows "\<exists>c'. cache_checkWithLocked c1 = Some c' \<and> wf c' \<and> keeps k c c' \<and> ttl c' = ttl c1"
proof -
  from cache_pass[OF assms(1)] obtain n where n: "n \<le> length (lruList c1)"
    "cache_checkWithLocked c1 = Some (evicted n c1)" by blast
  from wf_evicted[OF assms(1) n(1)] keeps_trans[OF assms(2) keeps_evicted[of k c1 n]] n(2)
  show ?thesis by simp
qed

lemma lru_Update_keeps:
  assumes "wf c" "k' \<noteq> k"
  shows "\<exists>c'. lru_Update c k' v now now' = Some c' \<and> wf c' \<and> keeps k c c' \<and> ttl c' = ttl c"
proof (cases "lruMap c k'")
  case None
  from lru_pass_keeps[OF wf_insert[OF assms(1) None, of v now] keeps_push_new[OF assms, of v now],
      of now']
  show ?thesis using None by (simp add: lru_Update_def)
next
  case (Some ele)
  from wf_index[OF assms(1) Some] obtain item where item: "heap c ele = Some item" by blast
  from lru_pass_keeps[OF wf_touch[OF assms(1) Some item, of v now]
      keeps_touch[OF assms(1) Some assms(2), of item v now], of now']
  show ?thesis using Some item by (simp add: lru_Update_def)
qed

lemma cache_Update_keeps:
  assumes "wf c" "k' \<noteq> k"
  shows "\<exists>c'. cache_Update c k' v now = Some c' \<and> wf c' \<and> keeps k c c' \<and> ttl c' = ttl c"
proof (cases "lruMap c k'")
  case None
  from cache_pass_keeps[OF wf_insert[OF assms(1) None, of v now] keeps_push_new[OF assms, of v now]]
  show ?thesis using None by (simp add: cache_Update_def)
next
  case (Some ele)
  from wf_index[OF assms(1) Some] obtain item where item: "heap c ele = Some item" by blast
  from wf_touch[OF assms(1) Some item, of v now] keeps_touch[OF assms(1) Some assms(2), of item v now]
  show ?thesis using Some item by (simp add: cache_Update_def)
qed

lemma lru_Get_keeps:
  assumes "wf c"
  shows "\<exists>c' r. lru_Get c k' now now' = Some (c', r) \<and> wf c' \<and> keeps k c c' \<and> ttl c' = ttl c"
proof -
  let ?c = "c\<lparr>reqCount := reqCount c + 1\<rparr>"
  have w0: "wf ?c" using assms by simp
  show ?thesis
  proof (cases "lruMap c k'")
    case None
    from lru_pass_keeps[OF w0, of k c now'] show ?thesis
      using lru_Get_absent[OF None, of now now'] by (auto simp: returning_def keeps_refl)
  next
    case (Some ele)
    from wf_index[OF assms Some] obtain item
      where item: "heap c ele = Some item" "ele \<in> set (lruList c)" by blast
    show ?thesis
    proof (cases "now <s createAt item + ttl c")
      case True
      let ?c1 = "c\<lparr>reqCount := reqCount c + 1, hitCount := hitCount c + 1,
                   lruList := MoveToBack ele (lruList c)\<rparr>"
      have "wf ?c1" using wf_move[OF assms, of ele] by (simp add: wf_def)
      moreover have "keeps k c ?c1" by (simp add: keeps_refl)
      ultimately show ?thesis
        using lru_pass_keeps[of ?c1 k c now'] lru_Get_fresh[OF Some item(1) True, of now']
        by (auto simp: returning_def)
    next
      case False
      let ?c1 = "evict ele item ?c"
      have "wf ?c1" using wf_evict[OF w0, of ele item] item by simp
      moreover have "keeps k c ?c1" using keeps_evict[of k ?c ele item] by simp
      ultimately show ?thesis
        using lru_pass_keeps[of ?c1 k c now'] lru_Get_stale[OF Some item(1) False, of now']
        by (auto simp: returning_def)
    qed
  qed
qed

lemma cache_Get_keeps:
  assumes "wf c"
  shows "\<exists>c' r. cache_Get c k' now = Some (c', r) \<and> wf c' \<and> keeps k c c' \<and> ttl c' = ttl c"
proof (cases "lruMap c k'")
  case None
  then show ?thesis using assms by (simp add: cache_Get_absent keeps_refl)
next
  case (Some ele)
  from wf_index[OF assms Some] obtain item
    where item: "heap c ele = Some item" "key item = k'" "ele \<in> set (lruList c)" by blast
  show ?thesis
  proof (cases "now <s createAt item + ttl c")
    case True
    have "wf (c\<lparr>lruList := MoveToBack ele (lruList c)\<rparr>)" by (rule wf_move[OF assms])
    then show ?thesis
      using cache_Get_fresh[OF Some item(1) True] by (simp add: keeps_refl wf_def)
  next
    case False
    let ?c1 = "evict ele item (c\<lparr>reqCount := reqCount c + 1\<rparr>)"
    have w: "wf ?c1"
      using wf_evict[of "c\<lparr>reqCount := reqCount c + 1\<rparr>" ele item] assms item by simp
    have g: "cache_Get c k' now = Some (?c1, Inl ErrKeyNotFound)"
      using cache_Get_stale[OF Some item(1) False] item(2) by (simp add: evict_def)
    have "keeps k c ?c1" using keeps_evict[of k "c\<lparr>reqCount := reqCount c + 1\<rparr>" ele item] by simp
    then show ?thesis using w g by simp
  qed
qed

lemma cache_Delete_keeps:
  assumes "wf c"
  shows "wf (fst (cache_Delete c k')) \<and> keeps k c (fst (cache_Delete c k')) \<and>
         ttl (fst (cache_Delete c k')) = ttl c"
proof (cases "lruMap c k'")
  case None
  then show ?thesis using assms by (simp add: cache_Delete_absent keeps_refl)
next
  case (Some ele)
  from wf_index[OF assms Some] obtain item
    where item: "heap c ele = Some item" "key item = k'" "ele \<in> set (lruList c)" by blast
  let ?c0 = "c\<lparr>reqCount := reqCount c + 1, hitCount := hitCount c + 1\<rparr>"
  have w: "wf (evict ele item ?c0)" using wf_evict[of ?c0 ele item] assms item by simp
  have g: "fst (cache_Delete c k') = evict ele item ?c0"
    using cache_Delete_present[OF Some] item(2) by (simp add: evict_def)
  have "keeps k c (evict ele item ?c0)" using keeps_evict[of k ?c0 ele item] by simp
  then show ?thesis using w g by simp
qed

lemma lru_run_keeps:
  "wf c \<Longrightarrow> \<forall>x\<in>set xs. \<not> lru_touches k x \<Longrightarrow>
   \<exists>c'. lru_run c xs = Some c' \<and> wf c' \<and> keeps k c c' \<and> ttl c' = ttl c"
proof (induction xs arbitrary: c)
  case Nil
  then show ?case by (simp add: keeps_refl)
next
  case (Cons x xs)
  have "\<exists>c1. lru_apply c x = Some c1 \<and> wf c1 \<and> keeps k c c1 \<and> ttl c1 = ttl c"
  proof (cases x)
    case (LUpdate k' v now now')
    with Cons.prems(2) have "k' \<noteq> k" by simp
    from lru_Update_keeps[OF Cons.prems(1) this, of v now now'] LUpdate show ?thesis by simp
  next
    case (LGet k' now now')
    from lru_Get_keeps[OF Cons.prems(1), of k' now now' k] LGet show ?thesis by auto
  qed
  then obtain c1 where c1: "lru_apply c x = Some c1" "wf c1" "keeps k c c1" "ttl c1 = ttl c"
    by blast
  from Cons.IH[OF c1(2)] Cons.prems(2) obtain c'
    where "lru_run c1 xs = Some c'" "wf c'" "keeps k c1 c'" "ttl c' = ttl c1" by auto
  then show ?case using c1 keeps_trans[of k c c1 c'] by simp
qed

lemma cache_run_keeps:
  "wf c \<Longrightarrow> \<forall>x\<in>set xs. \<not> cache_touches k x \<Longrightarrow>
   \<exists>c'. cache_run c xs = Some c' \<and> wf c' \<and> keeps k c c' \<and> ttl c' = ttl c"
proof (induction xs arbitrary: c)
  case Nil
  then show ?case by (simp add: keeps_refl)
next
  case (Cons x xs)
  have "\<exists>c1. cache_apply c x = Some c1 \<and> wf c1 \<and> keeps k c c1 \<and> ttl c1 = ttl c"
  proof (cases x)
    case (CUpdate k' v now)
    with Cons.prems(2) have "k' \<noteq> k" by simp
    from cache_Update_keeps[OF Cons.prems(1) this, of v now] CUpdate show ?thesis by simp
  next
    case (CGet k' now)
    from cache_Get_keeps[OF Cons.prems(1), of k' now k] CGet show ?thesis by auto
  next
    case (CDelete k')
    from cache_Delete_keeps[OF Cons.prems(1), of k' k] CDelete show ?thesis by simp
  qed
  then obtain c1 where c1: "cache_apply c x = Some c1" "wf c1" "keeps k c c1" "ttl c1 = ttl c"
    by blast
  from Cons.IH[OF c1(2)] Cons.prems(2) obtain c'
    where "cache_run c1 xs = Some c'" "wf c'" "keeps k c1 c'" "ttl c' = ttl c1" by auto
  then show ?case using c1 keeps_trans[of k c c1 c'] by simp
qed


section \<open>TTL within the range of int64\<close>

lemma entry_of_None_iff: "wf c \<Longrightarrow> entry_of c k = None \<longleftrightarrow> lruMap c k = None"
  by (cases "lruMap c k") (auto simp: entry_of_def elim: wf_index)

lemma entry_of_push_new:
  "entry_of (push_new k v now c) k = Some \<lparr>key = k, val = v, createAt = now\<rparr>"
  by (simp add: entry_of_def push_new_def)

lemma entry_of_touch:
  assumes "wf c" "lruMap c k = Some ele" "heap c ele = Some item"
  shows "entry_of (touch ele item v now c) k = Some \<lparr>key = k, val = v, createAt = now\<rparr>"
proof -
  from wf_index[OF assms(1,2)] assms(3) have "key item = k" by auto
  then show ?thesis using assms(2) by (simp add: entry_of_def touch_def)
qed

lemma keeps_from:
  "keeps k c c' \<Longrightarrow> entry_of c k = Some it \<Longrightarrow> entry_of c' k = None \<or> entry_of c' k = Some it"
  by (auto simp: keeps_def)

lemma lru_Update_entry:
  assumes "wf c"
  shows "\<exists>c'. lru_Update c k v now now' = Some c' \<and> wf c' \<and> ttl c' = ttl c \<and>
           (entry_of c' k = None \<or> entry_of c' k = Some \<lparr>key = k, val = v, createAt = now\<rparr>)"
proof (cases "lruMap c k")
  case None
  let ?c1 = "push_new k v now c"
  from lru_pass_keeps[OF wf_insert[OF assms None, of v now] keeps_refl[of k ?c1], of now']
  obtain c' where c': "lru_checkWithLocked now' ?c1 = Some c'" "wf c'" "keeps k ?c1 c'"
    "ttl c' = ttl ?c1" by blast
  from keeps_from[OF c'(3) entry_of_push_new] c'(1,2,4) None show ?thesis
    by (auto simp: lru_Update_def push_new_def)
next
  case (Some ele)
  from wf_index[OF assms Some] obtain item where item: "heap c ele = Some item" by blast
  let ?c1 = "touch ele item v now c"
  from lru_pass_keeps[OF wf_touch[OF assms Some item, of v now] keeps_refl[of k ?c1], of now']
  obtain c' where c': "lru_checkWithLocked now' ?c1 = Some c'" "wf c'" "keeps k ?c1 c'"
    "ttl c' = ttl ?c1" by blast
  from keeps_from[OF c'(3) entry_of_touch[OF assms Some item]] c'(1,2,4) Some item show ?thesis
    by (auto simp: lru_Update_def touch_def)
qed

lemma cache_Update_entry:
  assumes "wf c"
  shows "\<exists>c'. cache_Update c k v now = Some c' \<and> wf c' \<and> ttl c' = ttl c \<and>
           (entry_of c' k = None \<or> entry_of c' k = Some \<lparr>key = k, val = v, createAt = now\<rparr>)"
proof (cases "lruMap c k")
  case None
  let ?c1 = "push_new k v now c"
  from cache_pass_keeps[OF wf_insert[OF assms None, of v now] keeps_refl[of k ?c1]]
  obtain c' where c': "cache_checkWithLocked ?c1 = Some c'" "wf c'" "keeps k ?c1 c'"
    "ttl c' = ttl ?c1" by blast
  from keeps_from[OF c'(3) entry_of_push_new] c'(1,2,4) None show ?thesis
    by (auto simp: cache_Update_def push_new_def)
next
  case (Some ele)
  from wf_index[OF assms Some] obtain item where item: "heap c ele = Some item" by blast
  from wf_touch[OF assms Some item, of v now] entry_of_touch[OF assms Some item, of v now]
  show ?thesis using Some item by (simp add: cache_Update_def)
qed

lemma lru_Get_entry:
  assumes "wf c"
  shows "\<exists>c' r. lru_Get c k now now' = Some (c', r) \<and>
           (case entry_of c k of
              None \<Rightarrow> r = Inl ErrLruNotFoundKey
            | Some item \<Rightarrow>
                r = (if now <s createAt item + ttl c then Inr (val item)
                     else Inl ErrLruNotFoundKey))"
proof (cases "lruMap c k")
  case None
  have "wf (c\<lparr>reqCount := reqCount c + 1\<rparr>)" using assms by simp
  from lru_pass_post[OF this, of now'] show ?thesis
    using lru_Get_absent[OF None, of now now'] None
    by (auto simp: returning_def entry_of_def)
next
  case (Some ele)
  from wf_index[OF assms Some] obtain item
    where item: "heap c ele = Some item" "ele \<in> set (lruList c)" by blast
  have e: "entry_of c k = Some item" using Some item(1) by (simp add: entry_of_def)
  show ?thesis
  proof (cases "now <s createAt item + ttl c")
    case True
    let ?c1 = "c\<lparr>reqCount := reqCount c + 1, hitCount := hitCount c + 1,
                 lruList := MoveToBack ele (lruList c)\<rparr>"
    have "wf ?c1" using wf_move[OF assms, of ele] by (simp add: wf_def)
    from lru_pass_post[OF this, of now'] show ?thesis
      using lru_Get_fresh[OF Some item(1) True, of now'] e True by (auto simp: returning_def)
  next
    case False
    have "wf (evict ele item (c\<lparr>reqCount := reqCount c + 1\<rparr>))"
      using wf_evict[of "c\<lparr>reqCount := reqCount c + 1\<rparr>" ele item] assms item by simp
    from lru_pass_post[OF this, of now'] show ?thesis
      using lru_Get_stale[OF Some item(1) False, of now'] e False by (auto simp: returning_def)
  qed
qed

lemma cache_Get_entry:
  assumes "wf c"
  shows "\<exists>c' r. cache_Get c k now = Some (c', r) \<and>
           (case entry_of c k of
              None \<Rightarrow> r = Inl ErrKeyNotFound
            | Some item \<Rightarrow>
                r = (if now <s createAt item + ttl c then Inr (val item)
                     else Inl ErrKeyNotFound))"
proof (cases "lruMap c k")
  case None
  then show ?thesis by (simp add: cache_Get_absent entry_of_def)
next
  case (Some ele)
  from wf_index[OF assms Some] obtain item
    where item: "heap c ele = Some item" "ele \<in> set (lruList c)" by blast
  have e: "entry_of c k = Some item" using Some item(1) by (simp add: entry_of_def)
  show ?thesis
  proof (cases "now <s createAt item + ttl c")
    case True
    then show ?thesis using cache_Get_fresh[OF Some item(1) True] e by simp
  next
    case False
    then show ?thesis using cache_Get_stale[OF Some item(1) False] e by simp
  qed
qed

text \<open>
  TTL correctness where the sum \<open>createAt + ttl\<close> stays within \<^verbatim>\<open>int64\<close>: after
  \<^verbatim>\<open>Update(k, v)\<close> at clock reading \<open>T\<close> and any calls that do not name \<open>k\<close>, \<^verbatim>\<open>Get(k)\<close> at
  clock reading \<open>T'\<close> returns the not-found error when \<open>T' - T \<ge> ttl\<close>, and returns \<open>v\<close>
  when \<open>T' - T < ttl\<close> and \<open>k\<close> is still in the index. In both packages.
\<close>

lemma lru_ttl_in_range:
  assumes "wf c0" "\<forall>x\<in>set xs. \<not> lru_touches k x"
    "- (2 ^ 63) \<le> sint T + sint (ttl c0)" "sint T + sint (ttl c0) < 2 ^ 63"
  shows "\<exists>c1 c2 c3 r. lru_Update c0 k v T T2 = Some c1 \<and> lru_run c1 xs = Some c2 \<and>
           lru_Get c2 k T' T3 = Some (c3, r) \<and>
           (sint (ttl c0) \<le> sint T' - sint T \<longrightarrow> r = Inl ErrLruNotFoundKey) \<and>
           (sint T' - sint T < sint (ttl c0) \<and> lruMap c2 k \<noteq> None \<longrightarrow> r = Inr v)"
proof -
  let ?it = "\<lparr>key = k, val = v, createAt = T\<rparr>"
  from lru_Update_entry[OF assms(1), of k v T T2] obtain c1
    where c1: "lru_Update c0 k v T T2 = Some c1" "wf c1" "ttl c1 = ttl c0"
      "entry_of c1 k = None \<or> entry_of c1 k = Some ?it" by blast
  from lru_run_keeps[OF c1(2) assms(2)] obtain c2
    where c2: "lru_run c1 xs = Some c2" "wf c2" "keeps k c1 c2" "ttl c2 = ttl c1" by blast
  have e2: "entry_of c2 k = None \<or> entry_of c2 k = Some ?it"
    using c1(4) c2(3) by (auto simp: keeps_def)
  from lru_Get_entry[OF c2(2), of k T' T3] obtain c3 r
    where g: "lru_Get c2 k T' T3 = Some (c3, r)"
      "case entry_of c2 k of None \<Rightarrow> r = Inl ErrLruNotFoundKey
       | Some item \<Rightarrow> r = (if T' <s createAt item + ttl c2 then Inr (val item)
                            else Inl ErrLruNotFoundKey)" by blast
  have t: "ttl c2 = ttl c0" using c1(3) c2(4) by simp
  have a: "sint (ttl c0) \<le> sint T' - sint T \<longrightarrow> r = Inl ErrLruNotFoundKey"
    using e2 g(2) t stale_not_fresh[OF assms(3), of T'] by auto
  have b: "sint T' - sint T < sint (ttl c0) \<and> lruMap c2 k \<noteq> None \<longrightarrow> r = Inr v"
    using e2 g(2) t fresh_in_range[OF assms(4), of T'] entry_of_None_iff[OF c2(2), of k] by auto
  from c1(1) c2(1) g(1) a b show ?thesis by blast
qed

lemma cache_ttl_in_range:
  assumes "wf c0" "\<forall>x\<in>set xs. \<not> cache_touches k x"
    "- (2 ^ 63) \<le> sint T + sint (ttl c0)" "sint T + sint (ttl c0) < 2 ^ 63"
  shows "\<exists>c1 c2 c3 r. cache_Update c0 k v T = Some c1 \<and> cache_run c1 xs = Some c2 \<and>
           cache_Get c2 k T' = Some (c3, r) \<and>
           (sint (ttl c0) \<le> sint T' - sint T \<longrightarrow> r = Inl ErrKeyNotFound) \<and>
           (sint T' - sint T < sint (ttl c0) \<and> lruMap c2 k \<noteq> None \<longrightarrow> r = Inr v)"
proof -
  let ?it = "\<lparr>key = k, val = v, createAt = T\<rparr>"
  from cache_Update_entry[OF assms(1), of k v T] obtain c1
    where c1: "cache_Update c0 k v T = Some c1" "wf c1" "ttl c1 = ttl c0"
      "entry_of c1 k = None \<or> entry_of c1 k = Some ?it" by blast
  from cache_run_keeps[OF c1(2) assms(2)] obtain c2
    where c2: "cache_run c1 xs = Some c2" "wf c2" "keeps k c1 c2" "ttl c2 = ttl c1" by blast
  have e2: "entry_of c2 k = None \<or> entry_of c2 k = Some ?it"
    using c1(4) c2(3) by (auto simp: keeps_def)
  from cache_Get_entry[OF c2(2), of k T'] obtain c3 r
    where g: "cache_Get c2 k T' = Some (c3, r)"
      "case entry_of c2 k of None \<Rightarrow> r = Inl ErrKeyNotFound
       | Some item \<Rightarrow> r = (if T' <s createAt item + ttl c2 then Inr (val item)
                            else Inl ErrKeyNotFound)" by blast
  have t: "ttl c2 = ttl c0" using c1(3) c2(4) by simp
  have a: "sint (ttl c0) \<le> sint T' - sint T \<longrightarrow> r = Inl ErrKeyNotFound"
    using e2 g(2) t stale_not_fresh[OF assms(3), of T'] by auto
  have b: "sint T' - sint T < sint (ttl c0) \<and> lruMap c2 k \<noteq> None \<longrightarrow> r = Inr v"
    using e2 g(2) t fresh_in_range[OF assms(4), of T'] entry_of_None_iff[OF c2(2), of k] by auto
  from c1(1) c2(1) g(1) a b show ?thesis by blast
qed

section \<open>The claims\<close>

text \<open>
  C6. After construction and after every sequence of public calls (\<^verbatim>\<open>Update\<close>, \<^verbatim>\<open>Get\<close>, and
  \<^verbatim>\<open>Delete\<close> where the package has it), in both packages: no call has panicked; the
  index and the list are in bijection (\<open>wf\<close>: every handle of the index is an element
  of the list whose entry has that key, every element of the list is the handle of its
  entry's key, no element occurs twice); the keys of the entries in the list are
  exactly the keys of the index, each once; and the live count is the size of the
  index (as an \<^verbatim>\<open>int64\<close>).
\<close>

theorem index_list_consistent:
  "(\<exists>c. lru_run (NewLRUCache m t) xs = Some c \<and> wf c \<and> distinct (list_keys c) \<and>
        set (list_keys c) = Some ` dom (lruMap c) \<and>
        keyCount c = of_nat (card (dom (lruMap c)))) \<and>
   (\<exists>c. cache_run (NewLRUCache m t) ys = Some c \<and> wf c \<and> distinct (list_keys c) \<and>
        set (list_keys c) = Some ` dom (lruMap c) \<and>
        keyCount c = of_nat (card (dom (lruMap c))))"
proof -
  from lru_run_post[OF wf_New, of m t xs] obtain c
    where c: "lru_run (NewLRUCache m t) xs = Some c" "wf c"
    by (auto simp: step_post_def)
  from cache_run_post[OF wf_New, of m t ys] obtain c'
    where c': "cache_run (NewLRUCache m t) ys = Some c'" "wf c'"
    by (auto simp: step_post_def)
  from c wf_consistent[OF c(2)] c' wf_consistent[OF c'(2)] show ?thesis by blast
qed

theorem index_list_consistent_witness:
  "(\<exists>c. lru_run (NewLRUCache 2 10) [LUpdate ''a'' (1::nat) 5 5, LGet ''a'' 6 6] = Some c \<and>
        wf c \<and> distinct (list_keys c) \<and>
        set (list_keys c) = Some ` dom (lruMap c) \<and>
        keyCount c = of_nat (card (dom (lruMap c)))) \<and>
   (\<exists>c. cache_run (NewLRUCache 2 10) [CUpdate ''a'' (1::nat) 5, CDelete ''a''] = Some c \<and>
        wf c \<and> distinct (list_keys c) \<and>
        set (list_keys c) = Some ` dom (lruMap c) \<and>
        keyCount c = of_nat (card (dom (lruMap c))))"
  by (rule index_list_consistent)

text \<open>
  C3, as stated, fails for a negative capacity: \<^verbatim>\<open>NewLRUCache(-1, 10)\<close> followed by one
  \<^verbatim>\<open>Update\<close> leaves the cache empty in both packages, and the live count 0 is above the
  capacity -1.
\<close>

theorem capacity_bound_counterexample:
  "map_option cache_GetKeyCount (cache_run (NewLRUCache (- 1) 10) [CUpdate ''a'' (1::nat) 0]) = Some 0
   \<and> map_option lru_GetKeysCount (lru_run (NewLRUCache (- 1) 10) [LUpdate ''a'' (1::nat) 0 0]) = Some 0
   \<and> \<not> ((0::int64) \<le>s - 1)"
  by (simp add: eval_defs)

text \<open>
  C3, amended. On a cache made by \<^verbatim>\<open>NewLRUCache\<close> with a capacity \<open>m \<ge> 0\<close>, after every
  sequence of \<^verbatim>\<open>Update\<close> calls (with distinct keys or not, at any clock readings) the
  live count is at most the capacity, in both packages; the sequence never panics.
  Every prefix of a sequence is a sequence, so the bound holds after each call.
\<close>

theorem capacity_bound:
  assumes "0 \<le>s m"
  shows "(\<exists>c. lru_run (NewLRUCache m t) (map (\<lambda>(k, v, now, now'). LUpdate k v now now') us) = Some c \<and>
             lru_GetKeysCount c \<le>s m) \<and>
         (\<exists>c. cache_run (NewLRUCache m t) (map (\<lambda>(k, v, now). CUpdate k v now) ws) = Some c \<and>
             cache_GetKeyCount c \<le>s m)"
proof -
  have a: "0 \<le>s maxCount (NewLRUCache m t)" "keyCount (NewLRUCache m t) \<le>s maxCount (NewLRUCache m t)"
    for t using assms by (simp_all add: NewLRUCache_def)
  from lru_updates_bound[OF wf_New a, of t us] cache_updates_bound[OF wf_New a, of t ws]
  show ?thesis
    by (auto simp: lru_GetKeysCount_def cache_GetKeyCount_def NewLRUCache_def)
qed

theorem capacity_bound_witness:
  "(0::int64) \<le>s 2 \<and>
   (\<exists>c. lru_run (NewLRUCache 2 10)
          (map (\<lambda>(k, v, now, now'). LUpdate k v now now')
             [(''a'', 1::nat, 0, 0), (''b'', 2, 0, 0), (''c'', 3, 1, 1)]) = Some c \<and>
        lru_GetKeysCount c \<le>s 2) \<and>
   (\<exists>c. cache_run (NewLRUCache 2 10)
          (map (\<lambda>(k, v, now). CUpdate k v now)
             [(''a'', 1::nat, 0), (''b'', 2, 0), (''c'', 3, 1)]) = Some c \<and>
        cache_GetKeyCount c \<le>s 2)"
proof -
  have h: "(0::int64) \<le>s 2" by (simp add: word_sle_eq)
  from capacity_bound[OF h] h show ?thesis by blast
qed

text \<open>
  C8. From every consistent state and for every key, present in the index or not:
  \<^verbatim>\<open>Get\<close> returns and has incremented \<open>reqCount\<close> by exactly one; \<^verbatim>\<open>Update\<close> returns and
  leaves \<open>reqCount\<close> and \<open>hitCount\<close> as they were. In both packages.
\<close>

theorem request_counters:
  assumes "wf c"
  shows "(\<exists>c' r. lru_Get c k now now' = Some (c', r) \<and> reqCount c' = reqCount c + 1) \<and>
         (\<exists>c' r. cache_Get c k now = Some (c', r) \<and> reqCount c' = reqCount c + 1) \<and>
         (\<exists>c'. lru_Update c k v now now' = Some c' \<and> reqCount c' = reqCount c \<and>
               hitCount c' = hitCount c) \<and>
         (\<exists>c'. cache_Update c k v now = Some c' \<and> reqCount c' = reqCount c \<and>
               hitCount c' = hitCount c)"
  using lru_Get_post[OF assms, of k now now'] cache_Get_post[OF assms, of k now]
    lru_Update_post[OF assms, of k v now now'] cache_Update_post[OF assms, of k v now]
  by blast

theorem request_counters_witness:
  "wf cache_one \<and>
   (\<exists>c' r. lru_Get cache_one ''zz'' 3 3 = Some (c', r) \<and> reqCount c' = reqCount cache_one + 1) \<and>
   (\<exists>c' r. cache_Get cache_one ''zz'' 3 = Some (c', r) \<and> reqCount c' = reqCount cache_one + 1) \<and>
   (\<exists>c'. lru_Update cache_one ''b'' 7 3 3 = Some c' \<and> reqCount c' = reqCount cache_one \<and>
         hitCount c' = hitCount cache_one) \<and>
   (\<exists>c'. cache_Update cache_one ''b'' 7 3 = Some c' \<and> reqCount c' = reqCount cache_one \<and>
         hitCount c' = hitCount cache_one)"
  using request_counters[OF wf_cache_one] wf_cache_one by blast

text \<open>
  C7. \<^verbatim>\<open>Delete\<close> of src/lru_cache.go, from every consistent state and for every key:
  \<open>reqCount\<close> is incremented; for a key present in the index the call returns \<^verbatim>\<open>nil\<close>, the
  key is no longer in the index, its element is no longer in the list (which is one
  shorter, and holds no entry with that key), the live count is decremented and
  \<open>hitCount\<close> incremented; for an absent key the call returns \<^verbatim>\<open>ErrKeyNotFound\<close> and
  \<open>hitCount\<close> is unchanged.
\<close>

theorem Delete_effect:
  assumes "wf c" "cache_Delete c k = (c', r)"
  shows "reqCount c' = reqCount c + 1 \<and>
         (\<forall>ele. lruMap c k = Some ele \<longrightarrow>
            r = None \<and> lruMap c' k = None \<and> ele \<notin> set (lruList c') \<and>
            Suc (length (lruList c')) = length (lruList c) \<and>
            Some k \<notin> set (list_keys c') \<and>
            keyCount c' = keyCount c - 1 \<and> hitCount c' = hitCount c + 1) \<and>
         (lruMap c k = None \<longrightarrow> r = Some ErrKeyNotFound \<and> hitCount c' = hitCount c)"
proof (cases "lruMap c k")
  case None
  then show ?thesis using assms(2) by (auto simp: cache_Delete_absent)
next
  case (Some ele)
  from wf_index[OF assms(1) Some] have el: "ele \<in> set (lruList c)" by blast
  have d: "distinct (lruList c)" using assms(1) by (simp add: wf_def)
  have w: "wf c'" using cache_Delete_post[OF assms(1), of k] assms(2) by (simp add: step_post_def)
  have c': "c' = c\<lparr>reqCount := reqCount c + 1, hitCount := hitCount c + 1,
        lruList := Remove ele (lruList c), lruMap := (lruMap c)(k := None),
        keyCount := keyCount c - 1\<rparr>" and r: "r = None"
    using assms(2) cache_Delete_present[OF Some] by simp_all
  have m: "lruMap c' k = None" by (simp add: c')
  have "ele \<notin> set (lruList c')" using d by (simp add: c' Remove_def)
  moreover have "Suc (length (lruList c')) = length (lruList c)"
    using el by (simp add: c' Remove_def length_remove1) (cases "lruList c"; simp)
  moreover note wf_index_absent_keys[OF w m]
  ultimately show ?thesis using Some r m by (simp add: c')
qed

theorem Delete_effect_witness:
  "wf cache_two \<and> cache_Delete cache_two ''a'' = (evict 0 \<lparr>key = ''a'', val = 1, createAt = 0\<rparr>
       (cache_two\<lparr>reqCount := 1, hitCount := 1\<rparr>), None) \<and>
   lruMap cache_two ''a'' = Some 0 \<and>
   lruList (evict 0 \<lparr>key = ''a'', val = 1, createAt = 0\<rparr> (cache_two\<lparr>reqCount := 1, hitCount := 1\<rparr>)) = [1] \<and>
   keyCount (evict 0 \<lparr>key = ''a'', val = 1, createAt = 0\<rparr> (cache_two\<lparr>reqCount := 1, hitCount := 1\<rparr>)) = 1"
proof -
  have e: "cache_Delete cache_two ''a'' = (evict 0 \<lparr>key = ''a'', val = 1, createAt = 0\<rparr>
       (cache_two\<lparr>reqCount := 1, hitCount := 1\<rparr>), None)"
    by (simp add: eval_defs cache_two_def)
  have p: "lruMap cache_two ''a'' = Some 0" by (simp add: cache_two_def)
  from Delete_effect[OF wf_cache_two e] p wf_cache_two e show ?thesis
    by (simp add: cache_two_def evict_def Remove_def)
qed

text \<open>
  C10. \<^verbatim>\<open>Delete(k)\<close> of src/lru_cache.go runs no eviction pass: from every consistent
  state, the entries in the store are unchanged (value and \<open>createAt\<close> of every entry),
  the index is unchanged at every key other than \<open>k\<close>, the list is the old list without
  the element of \<open>k\<close>, the other elements in their old order, and the capacity and the
  TTL are unchanged; when \<open>k\<close> is absent the whole state is unchanged but for
  \<open>reqCount\<close>.
\<close>

theorem Delete_frame:
  assumes "wf c" "cache_Delete c k = (c', r)"
  shows "heap c' = heap c \<and>
         (\<forall>k'. k' \<noteq> k \<longrightarrow> lruMap c' k' = lruMap c k') \<and>
         lruList c' = filter (\<lambda>e. lruMap c k \<noteq> Some e) (lruList c) \<and>
         maxCount c' = maxCount c \<and> ttl c' = ttl c \<and>
         (lruMap c k = None \<longrightarrow> c' = c\<lparr>reqCount := reqCount c + 1\<rparr>)"
proof (cases "lruMap c k")
  case None
  then show ?thesis using assms(2) by (auto simp: cache_Delete_absent)
next
  case (Some ele)
  have d: "distinct (lruList c)" using assms(1) by (simp add: wf_def)
  have c': "c' = c\<lparr>reqCount := reqCount c + 1, hitCount := hitCount c + 1,
        lruList := Remove ele (lruList c), lruMap := (lruMap c)(k := None),
        keyCount := keyCount c - 1\<rparr>"
    using assms(2) cache_Delete_present[OF Some] by simp
  show ?thesis using Some remove1_filter_handle[OF d, of ele] by (simp add: c' Remove_def)
qed

theorem Delete_frame_witness:
  "wf cache_two \<and>
   cache_Delete cache_two ''a'' = (evict 0 \<lparr>key = ''a'', val = 1, createAt = 0\<rparr>
       (cache_two\<lparr>reqCount := 1, hitCount := 1\<rparr>), None) \<and>
   heap (evict 0 \<lparr>key = ''a'', val = 1, createAt = 0\<rparr> (cache_two\<lparr>reqCount := 1, hitCount := 1\<rparr>)) = heap cache_two \<and>
   lruMap (evict 0 \<lparr>key = ''a'', val = 1, createAt = 0\<rparr> (cache_two\<lparr>reqCount := 1, hitCount := 1\<rparr>)) ''b'' = Some 1 \<and>
   lruList (evict 0 \<lparr>key = ''a'', val = 1, createAt = 0\<rparr> (cache_two\<lparr>reqCount := 1, hitCount := 1\<rparr>)) = [1]"
proof -
  have e: "cache_Delete cache_two ''a'' = (evict 0 \<lparr>key = ''a'', val = 1, createAt = 0\<rparr>
       (cache_two\<lparr>reqCount := 1, hitCount := 1\<rparr>), None)"
    by (simp add: eval_defs cache_two_def)
  from Delete_frame[OF wf_cache_two e] wf_cache_two e show ?thesis
    by (simp add: cache_two_def evict_def Remove_def)
qed





text \<open>
  C4, as stated, fails for src/lru.go, where \<^verbatim>\<open>Get\<close> ends with the eviction pass: after
  \<^verbatim>\<open>NewLRUCache(5, 10); Update("a", 1)\<close> at clock reading 0, a \<^verbatim>\<open>Get("b")\<close> at clock reading
  100 returns \<^verbatim>\<open>ErrLruNotFoundKey\<close> and takes the live count from 1 to 0.
\<close>

theorem Get_miss_counterexample:
  "lru_run (NewLRUCache 5 10) [LUpdate ''a'' 1 0 0] = Some cache_one \<and>
   lru_GetKeysCount cache_one = 1 \<and>
   map_option (\<lambda>p. (lru_GetKeysCount (fst p), snd p)) (lru_Get cache_one ''b'' 100 100) =
     Some (0, Inl ErrLruNotFoundKey)"
  by (simp add: eval_defs cache_one_def)

text \<open>
  C4, amended. After every sequence of calls on a new cache none of which is an
  \<^verbatim>\<open>Update\<close> of \<open>k\<close> (it may hold any number of \<^verbatim>\<open>Get\<close> of \<open>k\<close>), \<^verbatim>\<open>Get(k)\<close> returns the
  not-found error. In src/lru_cache.go the state is unchanged but for \<open>reqCount\<close>, so
  the live count is unchanged. In src/lru.go the state is then the one that the
  trailing eviction pass leaves: the \<open>n\<close> front entries are removed, where \<open>n\<close> is the
  first position at which the pass stops, and the live count is the old one minus
  \<open>n\<close>; \<open>n\<close> is 0 when the list is empty, and when the count is within capacity and the
  front entry is not expired.
\<close>

theorem Get_miss:
  assumes "\<forall>x\<in>set xs. \<not> lru_inserts k x" "\<forall>y\<in>set ys. \<not> cache_inserts k y"
  shows "(\<exists>c n. lru_run (NewLRUCache m t) xs = Some c \<and> n \<le> length (lruList c) \<and>
            lru_Get c k now now' =
              Some (evicted n (c\<lparr>reqCount := reqCount c + 1\<rparr>), Inl ErrLruNotFoundKey) \<and>
            lru_GetKeysCount (evicted n (c\<lparr>reqCount := reqCount c + 1\<rparr>)) =
              lru_GetKeysCount c - of_nat n \<and>
            (\<forall>i<n. \<not> lru_stops now' c i) \<and>
            (n < length (lruList c) \<longrightarrow> lru_stops now' c n)) \<and>
         (\<exists>c. cache_run (NewLRUCache m' t') ys = Some c \<and>
            cache_Get c k now = Some (c\<lparr>reqCount := reqCount c + 1\<rparr>, Inl ErrKeyNotFound) \<and>
            cache_GetKeyCount (c\<lparr>reqCount := reqCount c + 1\<rparr>) = cache_GetKeyCount c)"
proof -
  from lru_never_inserted[OF assms(1), of m t] obtain c
    where c: "lru_run (NewLRUCache m t) xs = Some c" "wf c" "lruMap c k = None" by blast
  let ?c = "c\<lparr>reqCount := reqCount c + 1\<rparr>"
  have "wf ?c" using c(2) by simp
  from lru_pass[OF this, of now'] obtain n where n: "n \<le> length (lruList c)"
    "lru_checkWithLocked now' ?c = Some (evicted n ?c)"
    "\<forall>i<n. \<not> lru_stops now' c i"
    "n < length (lruList c) \<longrightarrow> lru_stops now' c n" by auto
  have g: "lru_Get c k now now' = Some (evicted n ?c, Inl ErrLruNotFoundKey)"
    using lru_Get_absent[OF c(3), of now now'] n(2) by (simp add: returning_def)
  have A: "\<exists>c n. lru_run (NewLRUCache m t) xs = Some c \<and> n \<le> length (lruList c) \<and>
            lru_Get c k now now' =
              Some (evicted n (c\<lparr>reqCount := reqCount c + 1\<rparr>), Inl ErrLruNotFoundKey) \<and>
            lru_GetKeysCount (evicted n (c\<lparr>reqCount := reqCount c + 1\<rparr>)) =
              lru_GetKeysCount c - of_nat n \<and>
            (\<forall>i<n. \<not> lru_stops now' c i) \<and>
            (n < length (lruList c) \<longrightarrow> lru_stops now' c n)"
    using c(1) n(1,3,4) g by (intro exI[of _ c] exI[of _ n]) (simp add: lru_GetKeysCount_def)
  from cache_never_inserted[OF assms(2), of m' t'] obtain c'
    where c': "cache_run (NewLRUCache m' t') ys = Some c'" "wf c'" "lruMap c' k = None" by blast
  have B: "\<exists>c. cache_run (NewLRUCache m' t') ys = Some c \<and>
            cache_Get c k now = Some (c\<lparr>reqCount := reqCount c + 1\<rparr>, Inl ErrKeyNotFound) \<and>
            cache_GetKeyCount (c\<lparr>reqCount := reqCount c + 1\<rparr>) = cache_GetKeyCount c"
    using c'(1) cache_Get_absent[OF c'(3), of now]
    by (intro exI[of _ c']) (simp add: cache_GetKeyCount_def)
  from A B show ?thesis by (rule conjI)
qed

theorem Get_miss_witness:
  "list_all (\<lambda>x. \<not> lru_inserts ''b'' x) [LUpdate ''a'' (1::nat) 0 0, LGet ''b'' 1 1] \<and>
   list_all (\<lambda>y. \<not> cache_inserts ''b'' y) [CUpdate ''a'' (1::nat) 0, CGet ''b'' 1, CDelete ''b''] \<and>
   (\<exists>c n. lru_run (NewLRUCache 5 10) [LUpdate ''a'' (1::nat) 0 0, LGet ''b'' 1 1] = Some c \<and>
      n \<le> length (lruList c) \<and>
      lru_Get c ''b'' 100 100 =
         Some (evicted n (c\<lparr>reqCount := reqCount c + 1\<rparr>), Inl ErrLruNotFoundKey) \<and>
      lru_GetKeysCount (evicted n (c\<lparr>reqCount := reqCount c + 1\<rparr>)) =
         lru_GetKeysCount c - of_nat n \<and>
      (\<forall>i<n. \<not> lru_stops 100 c i) \<and>
      (n < length (lruList c) \<longrightarrow> lru_stops 100 c n)) \<and>
   (\<exists>c. cache_run (NewLRUCache 5 10) [CUpdate ''a'' (1::nat) 0, CGet ''b'' 1, CDelete ''b''] = Some c \<and>
      cache_Get c ''b'' 100 = Some (c\<lparr>reqCount := reqCount c + 1\<rparr>, Inl ErrKeyNotFound) \<and>
      cache_GetKeyCount (c\<lparr>reqCount := reqCount c + 1\<rparr>) = cache_GetKeyCount c)"
proof -
  have a: "\<forall>x\<in>set [LUpdate ''a'' (1::nat) 0 0, LGet ''b'' 1 1]. \<not> lru_inserts ''b'' x" by simp
  have b: "\<forall>y\<in>set [CUpdate ''a'' (1::nat) 0, CGet ''b'' 1, CDelete ''b'']. \<not> cache_inserts ''b'' y"
    by simp
  have la: "list_all (\<lambda>x. \<not> lru_inserts ''b'' x) [LUpdate ''a'' (1::nat) 0 0, LGet ''b'' 1 1]"
    by simp
  have lb: "list_all (\<lambda>y. \<not> cache_inserts ''b'' y)
              [CUpdate ''a'' (1::nat) 0, CGet ''b'' 1, CDelete ''b'']"
    by simp
  note th = Get_miss[OF a b, where m=5 and t=10 and now=100 and now'=100 and m'=5 and t'=10]
  show ?thesis
    by (intro conjI la lb th[THEN conjunct1] th[THEN conjunct2])
qed

text \<open>
  C5, as stated, fails for src/lru.go, where \<^verbatim>\<open>Get\<close> ends with the eviction pass: after
  \<^verbatim>\<open>NewLRUCache(5, 10); Update("a", 1); Update("b", 2)\<close> at clock reading 0, a \<^verbatim>\<open>Get("b")\<close> at
  clock reading 100 finds \<open>b\<close> stale and removes it, and the pass then removes \<open>a\<close>: the
  live count goes from 2 to 0, not to 1.
\<close>

theorem stale_Get_counterexample:
  "lru_run (NewLRUCache 5 10) [LUpdate ''a'' 1 0 0, LUpdate ''b'' 2 0 0] = Some cache_two \<and>
   lruMap cache_two ''b'' = Some 1 \<and>
   heap cache_two 1 = Some \<lparr>key = ''b'', val = 2, createAt = 0\<rparr> \<and>
   (10::int) \<le> 100 - 0 \<and>
   lru_GetKeysCount cache_two = 2 \<and>
   map_option (\<lambda>p. (lru_GetKeysCount (fst p), snd p)) (lru_Get cache_two ''b'' 100 100) =
     Some (0, Inl ErrLruNotFoundKey)"
  by (simp add: eval_defs cache_two_def)

text \<open>
  C5, amended. From every consistent state, for a key \<open>k\<close> present in the index whose
  entry is stale (\<open>now - createAt \<ge> ttl\<close> over the integers, where \<open>createAt + ttl\<close> does
  not fall below the least \<^verbatim>\<open>int64\<close>): \<^verbatim>\<open>Get(k)\<close> returns the not-found error. In
  src/lru_cache.go the new state \<open>c1\<close> is the old one with \<open>reqCount\<close> incremented, the
  entry removed from the list and the index and the live count decremented by one;
  \<open>hitCount\<close> is unchanged. In src/lru.go the trailing eviction pass then runs on \<open>c1\<close>
  at the clock reading \<open>now'\<close>, and the new state is what that pass returns: \<open>c1\<close> with
  its \<open>n\<close> front entries removed, where \<open>n\<close> is the first position at which the pass
  stops (the count is within capacity and the front entry is not expired at \<open>now'\<close>), or
  the length of the list when there is none. So the entry of \<open>k\<close> is removed from the
  list and the index, \<open>reqCount\<close> is incremented, \<open>hitCount\<close> is unchanged, and the live
  count is decremented by \<open>1 + n\<close>: by exactly one when the list of \<open>c1\<close> is empty or the
  pass stops at once.
\<close>

theorem stale_Get:
  assumes "wf c" "lruMap c k = Some ele" "heap c ele = Some item"
    "- (2 ^ 63) \<le> sint (createAt item) + sint (ttl c)"
    "sint (ttl c) \<le> sint now - sint (createAt item)"
  shows "(let c1 = evict ele item (c\<lparr>reqCount := reqCount c + 1\<rparr>) in
           cache_Get c k now = Some (c1, Inl ErrKeyNotFound) \<and>
           lruMap c1 k = None \<and> ele \<notin> set (lruList c1) \<and> Some k \<notin> set (list_keys c1) \<and>
           keyCount c1 = keyCount c - 1 \<and> hitCount c1 = hitCount c \<and>
           reqCount c1 = reqCount c + 1 \<and>
           (\<exists>n\<le>length (lruList c1).
              lru_Get c k now now' = Some (evicted n c1, Inl ErrLruNotFoundKey) \<and>
              lru_checkWithLocked now' c1 = Some (evicted n c1) \<and>
              (\<forall>i<n. \<not> lru_stops now' c1 i) \<and>
              (n < length (lruList c1) \<longrightarrow> lru_stops now' c1 n) \<and>
              (lruList c1 = [] \<or> lru_stops now' c1 0 \<longrightarrow>
                 n = 0 \<and> keyCount (evicted n c1) = keyCount c - 1) \<and>
              lruMap (evicted n c1) k = None \<and> ele \<notin> set (lruList (evicted n c1)) \<and>
              Some k \<notin> set (list_keys (evicted n c1)) \<and>
              keyCount (evicted n c1) = keyCount c - 1 - of_nat n \<and>
              hitCount (evicted n c1) = hitCount c \<and>
              reqCount (evicted n c1) = reqCount c + 1))"
proof -
  let ?c0 = "c\<lparr>reqCount := reqCount c + 1\<rparr>"
  let ?c1 = "evict ele item ?c0"
  from wf_index[OF assms(1,2)] assms(3)
  have item: "key item = k" "ele \<in> set (lruList c)" by auto
  have st: "\<not> now <s createAt item + ttl c"
    by (rule stale_not_fresh[OF assms(4,5)])
  have w: "wf ?c1" using wf_evict[of ?c0 ele item] assms(1,3) item(2) by simp
  have d: "distinct (lruList c)" using assms(1) by (simp add: wf_def)
  have m: "lruMap ?c1 k = None" using item(1) by simp
  have l: "ele \<notin> set (lruList ?c1)" using d by simp
  have g: "cache_Get c k now = Some (?c1, Inl ErrKeyNotFound)"
    using cache_Get_stale[OF assms(2,3) st] item(1) by (simp add: evict_def)
  from lru_pass[OF w, of now'] obtain n where n: "n \<le> length (lruList ?c1)"
    "lru_checkWithLocked now' ?c1 = Some (evicted n ?c1)"
    "\<forall>i<n. \<not> lru_stops now' ?c1 i"
    "n < length (lruList ?c1) \<longrightarrow> lru_stops now' ?c1 n" by blast
  have g': "lru_Get c k now now' = Some (evicted n ?c1, Inl ErrLruNotFoundKey)"
    using lru_Get_stale[OF assms(2,3) st, of now'] n(2) by (simp add: returning_def)
  have w': "wf (evicted n ?c1)" by (rule wf_evicted[OF w n(1)])
  have m': "lruMap (evicted n ?c1) k = None" by (rule evicted_lruMap_None[OF m])
  have l': "ele \<notin> set (lruList (evicted n ?c1))" using l by (auto dest: in_set_dropD)
  have z: "lruList ?c1 = [] \<or> lru_stops now' ?c1 0 \<longrightarrow> n = 0"
    using n(1,3) by (cases n) auto
  then have z': "lruList ?c1 = [] \<or> lru_stops now' ?c1 0 \<longrightarrow>
                 n = 0 \<and> keyCount (evicted n ?c1) = keyCount c - 1"
    by auto
  have k': "keyCount (evicted n ?c1) = keyCount c - 1 - of_nat n"
    "hitCount (evicted n ?c1) = hitCount c" "reqCount (evicted n ?c1) = reqCount c + 1"
    by simp_all
  have "\<exists>n\<le>length (lruList ?c1).
              lru_Get c k now now' = Some (evicted n ?c1, Inl ErrLruNotFoundKey) \<and>
              lru_checkWithLocked now' ?c1 = Some (evicted n ?c1) \<and>
              (\<forall>i<n. \<not> lru_stops now' ?c1 i) \<and>
              (n < length (lruList ?c1) \<longrightarrow> lru_stops now' ?c1 n) \<and>
              (lruList ?c1 = [] \<or> lru_stops now' ?c1 0 \<longrightarrow>
                 n = 0 \<and> keyCount (evicted n ?c1) = keyCount c - 1) \<and>
              lruMap (evicted n ?c1) k = None \<and> ele \<notin> set (lruList (evicted n ?c1)) \<and>
              Some k \<notin> set (list_keys (evicted n ?c1)) \<and>
              keyCount (evicted n ?c1) = keyCount c - 1 - of_nat n \<and>
              hitCount (evicted n ?c1) = hitCount c \<and>
              reqCount (evicted n ?c1) = reqCount c + 1"
    using n g' z' m' l' wf_index_absent_keys[OF w' m'] k'
    by (intro exI[of _ n] conjI) assumption+
  then show ?thesis
    using g m l wf_index_absent_keys[OF w m] by (simp add: Let_def)
qed

theorem stale_Get_witness:
  "wf cache_two \<and> lruMap cache_two ''b'' = Some 1 \<and>
   heap cache_two 1 = Some \<lparr>key = ''b'', val = 2, createAt = 0\<rparr> \<and>
   - (2 ^ 63) \<le> sint (0::int64) + sint (ttl cache_two) \<and>
   sint (ttl cache_two) \<le> sint (100::int64) - sint (0::int64) \<and>
   cache_Get cache_two ''b'' 100 =
     Some (evict 1 \<lparr>key = ''b'', val = 2, createAt = 0\<rparr> (cache_two\<lparr>reqCount := 1\<rparr>),
           Inl ErrKeyNotFound) \<and>
   keyCount (evict 1 \<lparr>key = ''b'', val = 2, createAt = 0\<rparr> (cache_two\<lparr>reqCount := 1\<rparr>)) = 1 \<and>
   lru_Get cache_two ''b'' 100 100 =
     Some (evicted 1 (evict 1 \<lparr>key = ''b'', val = 2, createAt = 0\<rparr> (cache_two\<lparr>reqCount := 1\<rparr>)),
           Inl ErrLruNotFoundKey) \<and>
   keyCount (evicted 1 (evict 1 \<lparr>key = ''b'', val = 2, createAt = 0\<rparr>
       (cache_two\<lparr>reqCount := 1\<rparr>))) = 0 \<and>
   lru_Get cache_two ''b'' 100 5 =
     Some (evicted 0 (evict 1 \<lparr>key = ''b'', val = 2, createAt = 0\<rparr> (cache_two\<lparr>reqCount := 1\<rparr>)),
           Inl ErrLruNotFoundKey) \<and>
   keyCount (evicted 0 (evict 1 \<lparr>key = ''b'', val = 2, createAt = 0\<rparr>
       (cache_two\<lparr>reqCount := 1\<rparr>))) = 1"
proof -
  have a: "lruMap cache_two ''b'' = Some 1"
    "heap cache_two 1 = Some \<lparr>key = ''b'', val = 2, createAt = 0\<rparr>"
    by (simp_all add: cache_two_def)
  have b: "- (2 ^ 63) \<le> sint (createAt \<lparr>key = ''b'', val = 2::nat, createAt = 0\<rparr>) + sint (ttl cache_two)"
    "sint (ttl cache_two) \<le> sint (100::int64) - sint (createAt \<lparr>key = ''b'', val = 2::nat, createAt = 0\<rparr>)"
    by (simp_all add: cache_two_def)
  have e: "lru_Get cache_two ''b'' 100 100 =
     Some (evicted 1 (evict 1 \<lparr>key = ''b'', val = 2, createAt = 0\<rparr> (cache_two\<lparr>reqCount := 1\<rparr>)),
           Inl ErrLruNotFoundKey)"
    "keyCount (evicted 1 (evict 1 \<lparr>key = ''b'', val = 2, createAt = 0\<rparr>
       (cache_two\<lparr>reqCount := 1\<rparr>))) = 0"
    "lru_Get cache_two ''b'' 100 5 =
     Some (evicted 0 (evict 1 \<lparr>key = ''b'', val = 2, createAt = 0\<rparr> (cache_two\<lparr>reqCount := 1\<rparr>)),
           Inl ErrLruNotFoundKey)"
    "keyCount (evicted 0 (evict 1 \<lparr>key = ''b'', val = 2, createAt = 0\<rparr>
       (cache_two\<lparr>reqCount := 1\<rparr>))) = 1"
    by (simp_all add: eval_defs cache_two_def evicted_def fun_eq_iff)
  from stale_Get[OF wf_cache_two a b, where now'=100] wf_cache_two a b e show ?thesis
    by (simp add: Let_def cache_two_def)
qed




text \<open>
  C2 on the code: \<^verbatim>\<open>NewLRUCache(10, math.MaxInt64)\<close>, then \<^verbatim>\<open>Update("a", 1)\<close> and \<^verbatim>\<open>Get("a")\<close>
  in the same second 1700000000, in src/lru_cache.go. The key is in the index when
  \<^verbatim>\<open>Get\<close> is called and its age 0 is below the TTL, but \<^verbatim>\<open>item.createAt + cache.ttl\<close> wraps
  around to a negative \<^verbatim>\<open>int64\<close>, the test \<^verbatim>\<open>> time.Now().Unix()\<close> fails, and \<^verbatim>\<open>Get\<close> returns
  \<^verbatim>\<open>ErrKeyNotFound\<close>.
\<close>

theorem ttl_overflow:
  "map_option (\<lambda>c. lruMap c ''a'')
     (cache_run (NewLRUCache 10 9223372036854775807) [CUpdate ''a'' (1::nat) 1700000000]) =
     Some (Some 0) \<and>
   (1700000000::int) - 1700000000 < 9223372036854775807 \<and>
   (1700000000 + 9223372036854775807 :: int64) = - 9223372035154775809 \<and>
   map_option snd
     (Option.bind
        (cache_run (NewLRUCache 10 9223372036854775807) [CUpdate ''a'' (1::nat) 1700000000])
        (\<lambda>c. cache_Get c ''a'' 1700000000)) =
     Some (Inl ErrKeyNotFound)"
  by (simp add: eval_defs)

end
